theory Spec2Isabelle
  imports Main "HOL-Library.Multiset"
begin

section \<open>Data model of \<open>scr/avl_tree.py\<close>\<close>

text \<open>
  Python objects live in a store: an address is a natural number and the store maps every
  address to the fields of the \<open>Node\<close> allocated there.  A reference to a node is an
  address, \<open>None\<close> is \<open>None\<close>.  The field \<open>value\<close> of the source is called \<open>val\<close>
  here and the private counter \<open>__size\<close> is called \<open>tree_size\<close>.  Creating a node takes
  the next unused address \<open>nxt\<close>; nodes are never freed (Python collects them once they are
  unreachable, which no program can observe).
\<close>

type_synonym addr = nat

record node =
  val :: int
  parent :: "addr option"
  left :: "addr option"
  right :: "addr option"
  height :: int

type_synonym store = "addr \<Rightarrow> node"

record avl_tree =
  root :: "addr option"
  tree_size :: int
  heap :: store
  nxt :: addr

datatype error = TypeError | RuntimeError

text \<open>
  The arguments the public methods can receive: an \<open>int\<close> (Python's \<open>bool\<close> is a subclass
  of \<open>int\<close> and counts as one), a \<open>Node\<close>, or a value of any other type.
\<close>

datatype pyval = PInt int | PNode addr | POther

text \<open>
  A call either returns a value together with the store it leaves behind, or raises an
  exception, leaving the store as it was at the \<open>raise\<close>.
\<close>

type_synonym 'a result = "(error \<times> avl_tree) + ('a \<times> avl_tree)"

record NodeSearchResult =
  searched_node :: "addr option"
  insert_place :: "addr option"

definition is_found :: "NodeSearchResult \<Rightarrow> bool" where
  "is_found r = (searched_node r \<noteq> None)"

definition Node_new :: "int \<Rightarrow> node" where
  "Node_new v = \<lparr>val = v, parent = None, left = None, right = None, height = 0\<rparr>"

definition child_height :: "store \<Rightarrow> addr option \<Rightarrow> int" where
  "child_height h c = (case c of None \<Rightarrow> -1 | Some a \<Rightarrow> height (h a))"

definition balance_factor :: "store \<Rightarrow> addr \<Rightarrow> int" where
  "balance_factor h n =
     (let right_child_height = child_height h (right (h n));
          left_child_height = child_height h (left (h n))
      in right_child_height - left_child_height)"

definition set_val :: "store \<Rightarrow> addr \<Rightarrow> int \<Rightarrow> store" where
  "set_val h a v = h(a := (h a)\<lparr>val := v\<rparr>)"

definition set_parent :: "store \<Rightarrow> addr \<Rightarrow> addr option \<Rightarrow> store" where
  "set_parent h a p = h(a := (h a)\<lparr>parent := p\<rparr>)"

definition set_left :: "store \<Rightarrow> addr \<Rightarrow> addr option \<Rightarrow> store" where
  "set_left h a c = h(a := (h a)\<lparr>left := c\<rparr>)"

definition set_right :: "store \<Rightarrow> addr \<Rightarrow> addr option \<Rightarrow> store" where
  "set_right h a c = h(a := (h a)\<lparr>right := c\<rparr>)"

definition set_height :: "store \<Rightarrow> addr \<Rightarrow> int \<Rightarrow> store" where
  "set_height h a x = h(a := (h a)\<lparr>height := x\<rparr>)"

section \<open>The class \<open>AVLTree\<close>\<close>

definition AVLTree_init :: "store \<Rightarrow> addr \<Rightarrow> addr option \<Rightarrow> avl_tree" where
  "AVLTree_init h n r =
     \<lparr>root = r, tree_size = (if r = None then 0 else 1), heap = h, nxt = n\<rparr>"

definition create_node_from_value :: "avl_tree \<Rightarrow> pyval \<Rightarrow> addr result" where
  "create_node_from_value s v =
     (case v of
        POther \<Rightarrow> Inl (TypeError, s)
      | PNode a \<Rightarrow> Inr (a, s)
      | PInt k \<Rightarrow> Inr (nxt s, s\<lparr>heap := (heap s)(nxt s := Node_new k), nxt := nxt s + 1\<rparr>))"

text \<open>
  The loop of \<open>__search_node\<close>.  A store with a cycle below the root would keep it running,
  so it is a partial function: \<open>None\<close> stands for a loop that does not end.
\<close>

partial_function (option) search_loop ::
  "store \<Rightarrow> addr \<Rightarrow> addr option \<Rightarrow> NodeSearchResult \<Rightarrow> NodeSearchResult option" where
  "search_loop h sn current result =
     (case current of
        None \<Rightarrow> Some result
      | Some c \<Rightarrow>
          if val (h c) = val (h sn) then Some (result\<lparr>searched_node := Some c\<rparr>)
          else
            let next_node = (if val (h sn) < val (h c) then left (h c) else right (h c));
                result' = (if next_node = None then result\<lparr>insert_place := Some c\<rparr>
                           else result)
            in search_loop h sn next_node result')"

definition search_node :: "avl_tree \<Rightarrow> addr \<Rightarrow> NodeSearchResult option" where
  "search_node s sn =
     search_loop (heap s) sn (root s) \<lparr>searched_node = None, insert_place = None\<rparr>"

definition bst_insert :: "avl_tree \<Rightarrow> addr \<Rightarrow> (bool \<times> avl_tree) option" where
  "bst_insert s n =
     (case search_node s n of
        None \<Rightarrow> None
      | Some search_result \<Rightarrow>
          if is_found search_result then Some (False, s)
          else
            let s1 = (case insert_place search_result of
                        None \<Rightarrow> s\<lparr>root := Some n\<rparr>
                      | Some p \<Rightarrow>
                          let h1 = set_parent (heap s) n (Some p) in
                          if val (h1 n) < val (h1 p)
                          then s\<lparr>heap := set_left h1 p (Some n)\<rparr>
                          else s\<lparr>heap := set_right h1 p (Some n)\<rparr>)
            in Some (True, s1\<lparr>tree_size := tree_size s1 + 1\<rparr>))"

definition update_height :: "avl_tree \<Rightarrow> addr \<Rightarrow> avl_tree" where
  "update_height s n =
     (let left_height = child_height (heap s) (left (heap s n));
          right_height = child_height (heap s) (right (heap s n))
      in s\<lparr>heap := set_height (heap s) n (max left_height right_height + 1)\<rparr>)"

definition rotate_right :: "avl_tree \<Rightarrow> addr \<Rightarrow> (error \<times> avl_tree) + avl_tree" where
  "rotate_right s n =
     (case left (heap s n) of
        None \<Rightarrow> Inl (TypeError, s)
      | Some left_child \<Rightarrow>
          let right_grandchild = right (heap s left_child);
              h1 = set_right (heap s) left_child (Some n);
              h2 = set_left h1 n right_grandchild;
              h3 = set_parent h2 left_child (parent (h2 n));
              h4 = set_parent h3 n (Some left_child);
              h5 = (case right_grandchild of
                      None \<Rightarrow> h4
                    | Some g \<Rightarrow> set_parent h4 g (Some n));
              s1 = (case parent (h5 left_child) of
                      None \<Rightarrow> s\<lparr>root := Some left_child, heap := h5\<rparr>
                    | Some p \<Rightarrow>
                        if left (h5 p) = Some n
                        then s\<lparr>heap := set_left h5 p (Some left_child)\<rparr>
                        else s\<lparr>heap := set_right h5 p (Some left_child)\<rparr>);
              s2 = update_height s1 n
          in Inr (update_height s2 left_child))"

definition rotate_left :: "avl_tree \<Rightarrow> addr \<Rightarrow> (error \<times> avl_tree) + avl_tree" where
  "rotate_left s n =
     (case right (heap s n) of
        None \<Rightarrow> Inl (TypeError, s)
      | Some right_child \<Rightarrow>
          let left_grandchild = left (heap s right_child);
              h1 = set_left (heap s) right_child (Some n);
              h2 = set_right h1 n left_grandchild;
              h3 = set_parent h2 right_child (parent (h2 n));
              h4 = set_parent h3 n (Some right_child);
              h5 = (case left_grandchild of
                      None \<Rightarrow> h4
                    | Some g \<Rightarrow> set_parent h4 g (Some n));
              s1 = (case parent (h5 right_child) of
                      None \<Rightarrow> s\<lparr>root := Some right_child, heap := h5\<rparr>
                    | Some p \<Rightarrow>
                        if left (h5 p) = Some n
                        then s\<lparr>heap := set_left h5 p (Some right_child)\<rparr>
                        else s\<lparr>heap := set_right h5 p (Some right_child)\<rparr>);
              s2 = update_height s1 n
          in Inr (update_height s2 right_child))"

text \<open>One pass through the body of the loop of \<open>__balance\<close>, at the node \<open>current\<close>.\<close>

definition balance_step :: "avl_tree \<Rightarrow> addr \<Rightarrow> (error \<times> avl_tree) + avl_tree" where
  "balance_step s current =
     (let s1 = update_height s current;
          bf = balance_factor (heap s1) current
      in if bf < -1 then
           (case (case left (heap s1 current) of
                    None \<Rightarrow> Inr s1
                  | Some l \<Rightarrow>
                      if balance_factor (heap s1) l > 0 then rotate_left s1 l else Inr s1) of
              Inl e \<Rightarrow> Inl e
            | Inr s2 \<Rightarrow> rotate_right s2 current)
         else if bf > 1 then
           (case (case right (heap s1 current) of
                    None \<Rightarrow> Inr s1
                  | Some r \<Rightarrow>
                      if balance_factor (heap s1) r < 0 then rotate_right s1 r else Inr s1) of
              Inl e \<Rightarrow> Inl e
            | Inr s2 \<Rightarrow> rotate_left s2 current)
         else Inr s1)"

partial_function (option) balance_loop ::
  "avl_tree \<Rightarrow> addr option \<Rightarrow> ((error \<times> avl_tree) + avl_tree) option" where
  "balance_loop s current =
     (case current of
        None \<Rightarrow> Some (Inr s)
      | Some c \<Rightarrow>
          (case balance_step s c of
             Inl e \<Rightarrow> Some (Inl e)
           | Inr s' \<Rightarrow> balance_loop s' (parent (heap s' c))))"

definition balance :: "avl_tree \<Rightarrow> addr \<Rightarrow> ((error \<times> avl_tree) + avl_tree) option" where
  "balance s n = balance_loop s (Some n)"

definition bst_remove_leaf :: "avl_tree \<Rightarrow> addr \<Rightarrow> addr option \<times> avl_tree" where
  "bst_remove_leaf s n =
     (if \<not> (left (heap s n) = None \<and> right (heap s n) = None) then (None, s)
      else
        let s1 = (case parent (heap s n) of
                    None \<Rightarrow> s\<lparr>root := None\<rparr>
                  | Some p \<Rightarrow>
                      if left (heap s p) = Some n
                      then s\<lparr>heap := set_left (heap s) p None\<rparr>
                      else s\<lparr>heap := set_right (heap s) p None\<rparr>)
        in (Some n, s1\<lparr>tree_size := tree_size s1 - 1\<rparr>))"

definition bst_remove_one_child_node :: "avl_tree \<Rightarrow> addr \<Rightarrow> addr option \<times> avl_tree" where
  "bst_remove_one_child_node s n =
     (if (left (heap s n) = None) = (right (heap s n) = None) then (None, s)
      else
        case (if right (heap s n) = None then left (heap s n) else right (heap s n)) of
          None \<Rightarrow> (None, s)
        | Some child \<Rightarrow>
            let s1 = (case parent (heap s n) of
                        None \<Rightarrow>
                          s\<lparr>root := Some child, heap := set_parent (heap s) child None\<rparr>
                      | Some p \<Rightarrow>
                          if left (heap s p) = Some n
                          then
                            let h1 = set_left (heap s) p (Some child)
                            in s\<lparr>heap := set_parent h1 child (parent (h1 n))\<rparr>
                          else
                            let h1 = set_right (heap s) p (Some child)
                            in s\<lparr>heap := set_parent h1 child (parent (h1 n))\<rparr>)
            in (Some n, s1\<lparr>tree_size := tree_size s1 - 1\<rparr>))"

text \<open>The loop of \<open>__bst_remove_two_child_node\<close> that walks to the leftmost node.\<close>

partial_function (option) successor_loop :: "store \<Rightarrow> addr \<Rightarrow> addr option" where
  "successor_loop h successor =
     (case left (h successor) of
        None \<Rightarrow> Some successor
      | Some l \<Rightarrow> successor_loop h l)"

definition bst_remove_two_child_node ::
  "avl_tree \<Rightarrow> addr \<Rightarrow> (addr option \<times> avl_tree) option" where
  "bst_remove_two_child_node s n =
     (case left (heap s n) of
        None \<Rightarrow> Some (None, s)
      | Some l \<Rightarrow>
         (case right (heap s n) of
            None \<Rightarrow> Some (None, s)
          | Some r \<Rightarrow>
             (case successor_loop (heap s) r of
                None \<Rightarrow> None
              | Some successor \<Rightarrow>
                  let s1 = s\<lparr>heap := set_val (heap s) n (val (heap s successor))\<rparr>;
                      s2 = (case bst_remove_one_child_node s1 successor of
                              (Some d, s') \<Rightarrow> s'
                            | (None, s') \<Rightarrow> snd (bst_remove_leaf s' successor))
                  in Some (Some successor, s2))))"

definition bst_remove :: "avl_tree \<Rightarrow> addr \<Rightarrow> (addr option result) option" where
  "bst_remove s n =
     (case search_node s n of
        None \<Rightarrow> None
      | Some search_result \<Rightarrow>
         (case searched_node search_result of
            None \<Rightarrow> Some (Inr (None, s))
          | Some node_to_remove \<Rightarrow>
             (case bst_remove_leaf s node_to_remove of
                (Some d, s1) \<Rightarrow> Some (Inr (Some d, s1))
              | (None, s1) \<Rightarrow>
                 (case bst_remove_one_child_node s1 node_to_remove of
                    (Some d, s2) \<Rightarrow> Some (Inr (Some d, s2))
                  | (None, s2) \<Rightarrow>
                     (case bst_remove_two_child_node s2 node_to_remove of
                        None \<Rightarrow> None
                      | Some (Some d, s3) \<Rightarrow> Some (Inr (Some d, s3))
                      | Some (None, s3) \<Rightarrow> Some (Inl (RuntimeError, s3)))))))"

definition AVLTree_find :: "avl_tree \<Rightarrow> pyval \<Rightarrow> (addr option result) option" where
  "AVLTree_find s v =
     (case create_node_from_value s v of
        Inl e \<Rightarrow> Some (Inl e)
      | Inr (n, s1) \<Rightarrow>
         (case search_node s1 n of
            None \<Rightarrow> None
          | Some search_result \<Rightarrow>
              Some (Inr (if is_found search_result then searched_node search_result else None,
                         s1))))"

definition AVLTree_insert :: "avl_tree \<Rightarrow> pyval \<Rightarrow> (bool result) option" where
  "AVLTree_insert s v =
     (case create_node_from_value s v of
        Inl e \<Rightarrow> Some (Inl e)
      | Inr (new_node, s1) \<Rightarrow>
         (case bst_insert s1 new_node of
            None \<Rightarrow> None
          | Some (is_inserted, s2) \<Rightarrow>
              if \<not> is_inserted then Some (Inr (False, s2))
              else
                (case balance s2 new_node of
                   None \<Rightarrow> None
                 | Some (Inl e) \<Rightarrow> Some (Inl e)
                 | Some (Inr s3) \<Rightarrow> Some (Inr (True, s3)))))"

definition AVLTree_remove :: "avl_tree \<Rightarrow> pyval \<Rightarrow> (bool result) option" where
  "AVLTree_remove s v =
     (case create_node_from_value s v of
        Inl e \<Rightarrow> Some (Inl e)
      | Inr (n, s1) \<Rightarrow>
         (case bst_remove s1 n of
            None \<Rightarrow> None
          | Some (Inl e) \<Rightarrow> Some (Inl e)
          | Some (Inr (None, s2)) \<Rightarrow> Some (Inr (False, s2))
          | Some (Inr (Some deleted_node, s2)) \<Rightarrow>
             (case parent (heap s2 deleted_node) of
                None \<Rightarrow> Some (Inr (True, s2))
              | Some p \<Rightarrow>
                 (case balance s2 p of
                    None \<Rightarrow> None
                  | Some (Inl e) \<Rightarrow> Some (Inl e)
                  | Some (Inr s3) \<Rightarrow> Some (Inr (True, s3))))))"

section \<open>The tree a store holds\<close>

text \<open>
  The tree read off the store: each node with its address, its key and its stored height.
  \<open>repr h par t\<close> says that the store \<open>h\<close> holds the tree \<open>t\<close> below a node whose
  \<open>parent\<close> field must be \<open>par\<close>: the fields of every node of \<open>t\<close> are the ones \<open>t\<close>
  records, the child references are the roots of the subtrees, and every child refers
  back to its parent.
\<close>

datatype tree = Leaf | Node tree addr int int tree

fun raddr :: "tree \<Rightarrow> addr option" where
  "raddr Leaf = None"
| "raddr (Node l a v ht r) = Some a"

fun sh :: "tree \<Rightarrow> int" where
  "sh Leaf = -1"
| "sh (Node l a v ht r) = ht"

fun addrs :: "tree \<Rightarrow> addr list" where
  "addrs Leaf = []"
| "addrs (Node l a v ht r) = addrs l @ a # addrs r"

fun keys :: "tree \<Rightarrow> int list" where
  "keys Leaf = []"
| "keys (Node l a v ht r) = keys l @ v # keys r"

fun repr :: "store \<Rightarrow> addr option \<Rightarrow> tree \<Rightarrow> bool" where
  "repr h par Leaf = True"
| "repr h par (Node l a v ht r) =
     (h a = \<lparr>val = v, parent = par, left = raddr l, right = raddr r, height = ht\<rparr> \<and>
      repr h (Some a) l \<and> repr h (Some a) r)"

text \<open>
  Invariants 2 and 3 of the data model on a tree: the stored height of every node is one
  more than the larger stored height of its children (\<open>-1\<close> for an absent child), and
  the two differ by at most one.
\<close>

fun avl :: "tree \<Rightarrow> bool" where
  "avl Leaf = True"
| "avl (Node l a v ht r) =
     (avl l \<and> avl r \<and> ht = 1 + max (sh l) (sh r) \<and> \<bar>sh r - sh l\<bar> \<le> 1)"

text \<open>Invariant 1: the keys on the left are smaller, the keys on the right larger.\<close>

fun bst :: "tree \<Rightarrow> bool" where
  "bst Leaf = True"
| "bst (Node l a v ht r) =
     ((\<forall>x \<in> set (keys l). x < v) \<and> (\<forall>x \<in> set (keys r). v < x) \<and> bst l \<and> bst r)"

text \<open>
  The path from a node up to the root, as the walk of \<open>__balance\<close> sees it: for each
  ancestor the side the walk comes from, the ancestor's address and key, and the subtree
  on its other side.  \<open>ctx h q fs rt\<close> says that the store holds this path above the
  reference \<open>q\<close>, up to the root reference \<open>rt\<close>.
\<close>

datatype dir = L | R

datatype frame = Frame dir addr int tree

fun ptop :: "frame list \<Rightarrow> addr option" where
  "ptop [] = None"
| "ptop (Frame d a v sib # fs) = Some a"

fun ctx :: "store \<Rightarrow> addr option \<Rightarrow> frame list \<Rightarrow> addr option \<Rightarrow> bool" where
  "ctx h q [] rt = (rt = q)"
| "ctx h q (Frame d a v sib # fs) rt =
     (val (h a) = v \<and> parent (h a) = ptop fs \<and>
      (case d of
         L \<Rightarrow> left (h a) = q \<and> right (h a) = raddr sib
       | R \<Rightarrow> right (h a) = q \<and> left (h a) = raddr sib) \<and>
      repr h (Some a) sib \<and> ctx h (Some a) fs rt)"

fun faddrs :: "frame list \<Rightarrow> addr list" where
  "faddrs [] = []"
| "faddrs (Frame d a v sib # fs) = a # addrs sib @ faddrs fs"

text \<open>The keys before and after the place a path leads to, in order.\<close>

fun pre :: "frame list \<Rightarrow> int list" where
  "pre [] = []"
| "pre (Frame L a v sib # fs) = pre fs"
| "pre (Frame R a v sib # fs) = pre fs @ keys sib @ [v]"

fun post :: "frame list \<Rightarrow> int list" where
  "post [] = []"
| "post (Frame L a v sib # fs) = v # keys sib @ post fs"
| "post (Frame R a v sib # fs) = post fs"

text \<open>
  A path under which a subtree of stored height \<open>H\<close> once hung in a balanced tree: every
  subtree beside the path is balanced and its height is within one of the height the
  path had on the other side.
\<close>

fun ctx_ok :: "frame list \<Rightarrow> int \<Rightarrow> bool" where
  "ctx_ok [] H = True"
| "ctx_ok (Frame d a v sib # fs) H =
     (avl sib \<and> \<bar>sh sib - H\<bar> \<le> 1 \<and> ctx_ok fs (1 + max H (sh sib)))"

text \<open>
  What the rotations and one pass of the loop of \<open>__balance\<close> do to the tree a store
  holds.  A rotation recomputes the stored heights of the two nodes it moves, the lower one
  first.
\<close>

fun rotL :: "tree \<Rightarrow> tree" where
  "rotL (Node l a v ha (Node rl b w hb rr)) =
     Node (Node l a v (1 + max (sh l) (sh rl)) rl) b w
       (1 + max (1 + max (sh l) (sh rl)) (sh rr)) rr"
| "rotL t = t"

fun rotR :: "tree \<Rightarrow> tree" where
  "rotR (Node (Node ll b w hb lr) a v ha r) =
     Node ll b w (1 + max (sh ll) (1 + max (sh lr) (sh r)))
       (Node lr a v (1 + max (sh lr) (sh r)) r)"
| "rotR t = t"

fun bf :: "tree \<Rightarrow> int" where
  "bf Leaf = 0"
| "bf (Node l a v ht r) = sh r - sh l"

fun rebal :: "tree \<Rightarrow> tree" where
  "rebal Leaf = Leaf"
| "rebal (Node l c v h0 r) =
     (if sh r - sh l < -1 then rotR (Node (if bf l > 0 then rotL l else l) c v h0 r)
      else if sh r - sh l > 1 then rotL (Node l c v h0 (if bf r < 0 then rotR r else r))
      else Node l c v (1 + max (sh l) (sh r)) r)"

text \<open>The search of \<open>__search_node\<close> on the tree: where it stops and the path it took.\<close>

fun descend :: "int \<Rightarrow> tree \<Rightarrow> frame list \<Rightarrow> tree \<times> frame list" where
  "descend k Leaf fs = (Leaf, fs)"
| "descend k (Node l a v ht r) fs =
     (if v = k then (Node l a v ht r, fs)
      else if k < v then descend k l (Frame L a v r # fs)
      else descend k r (Frame R a v l # fs))"

text \<open>The walk to the leftmost node, as in \<open>__bst_remove_two_child_node\<close>.\<close>

fun leftmost :: "tree \<Rightarrow> frame list \<Rightarrow> tree \<times> frame list" where
  "leftmost Leaf fs = (Leaf, fs)"
| "leftmost (Node Leaf a v ht r) fs = (Node Leaf a v ht r, fs)"
| "leftmost (Node l a v ht r) fs = leftmost l (Frame L a v r # fs)"

text \<open>
  A well-formed tree object: the store holds a tree \<open>t\<close> at \<open>root\<close>, no node occurs twice,
  the tree is a balanced search tree with correct heights, \<open>tree_size\<close> counts its nodes
  and every node has been allocated.
\<close>

definition inv_t :: "avl_tree \<Rightarrow> tree \<Rightarrow> bool" where
  "inv_t s t =
     (root s = raddr t \<and> repr (heap s) None t \<and> distinct (addrs t) \<and> avl t \<and>
      sorted_wrt (<) (keys t) \<and> tree_size s = int (length (addrs t)) \<and>
      (\<forall>a \<in> set (addrs t). a < nxt s))"

section \<open>Using a tree, and what the specification asks of it\<close>

text \<open>
  A new, empty \<open>AVLTree()\<close>: no root, and no node allocated yet.  Sequences of calls of
  \<open>insert\<close> and \<open>remove\<close> with integer keys run from left to right and stop at the first
  exception.
\<close>

definition empty_tree :: avl_tree where
  "empty_tree = AVLTree_init (\<lambda>_. Node_new 0) 0 None"

datatype operation = Insert int | Remove int

fun run_op :: "avl_tree \<Rightarrow> operation \<Rightarrow> (bool result) option" where
  "run_op s (Insert k) = AVLTree_insert s (PInt k)"
| "run_op s (Remove k) = AVLTree_remove s (PInt k)"

fun run_ops :: "avl_tree \<Rightarrow> operation list \<Rightarrow> ((error \<times> avl_tree) + avl_tree) option" where
  "run_ops s [] = Some (Inr s)"
| "run_ops s (x # xs) =
     (case run_op s x of
        None \<Rightarrow> None
      | Some (Inl e) \<Rightarrow> Some (Inl e)
      | Some (Inr (b, s')) \<Rightarrow> run_ops s' xs)"

text \<open>The key \<open>k\<close> was inserted and not removed afterwards.\<close>

fun live :: "int \<Rightarrow> operation list \<Rightarrow> bool" where
  "live k [] = False"
| "live k (x # xs) = ((x = Insert k \<and> Remove k \<notin> set xs) \<or> live k xs)"

fun keys_after :: "operation list \<Rightarrow> int set \<Rightarrow> int set" where
  "keys_after [] S = S"
| "keys_after (Insert k # xs) S = keys_after xs (S \<union> {k})"
| "keys_after (Remove k # xs) S = keys_after xs (S - {k})"

text \<open>
  The tree reachable from a reference, following \<open>left\<close> and \<open>right\<close> only: the nodes
  of a tree object are the nodes of the tree reachable from its \<open>root\<close>.
\<close>

fun reach :: "store \<Rightarrow> addr option \<Rightarrow> tree \<Rightarrow> bool" where
  "reach h None Leaf = True"
| "reach h (Some a) (Node l a' v ht r) =
     (a' = a \<and> val (h a) = v \<and> height (h a) = ht \<and>
      reach h (left (h a)) l \<and> reach h (right (h a)) r)"
| "reach h None (Node l a' v ht r) = False"
| "reach h (Some a) Leaf = False"

text \<open>
  The invariants of the data model, on the nodes \<open>t\<close> reachable from the root of the tree
  object \<open>s\<close>.  Invariant 1 is \<open>bst\<close> above; invariant 5 is that the keys are distinct.
\<close>

definition balance_ok :: "avl_tree \<Rightarrow> tree \<Rightarrow> bool" where
  "balance_ok s t = (\<forall>a \<in> set (addrs t). balance_factor (heap s) a \<in> {-1, 0, 1})"

definition heights_ok :: "avl_tree \<Rightarrow> tree \<Rightarrow> bool" where
  "heights_ok s t =
     (\<forall>a \<in> set (addrs t).
        height (heap s a) =
          1 + max (child_height (heap s) (left (heap s a)))
                  (child_height (heap s) (right (heap s a))))"

definition parents_ok :: "avl_tree \<Rightarrow> tree \<Rightarrow> bool" where
  "parents_ok s t =
     (\<forall>a \<in> set (addrs t).
        case parent (heap s a) of
          None \<Rightarrow> root s = Some a
        | Some p \<Rightarrow> p \<in> set (addrs t) \<and>
                    ((left (heap s p) = Some a) \<noteq> (right (heap s p) = Some a)))"

definition invariants :: "avl_tree \<Rightarrow> tree \<Rightarrow> bool" where
  "invariants s t =
     (reach (heap s) (root s) t \<and> bst t \<and> balance_ok s t \<and> heights_ok s t \<and>
      parents_ok s t \<and> distinct (keys t))"

subsection \<open>Two trees built step by step\<close>

text \<open>
  The trees after inserting 1, 2, ..., 7 into an empty tree, one definition for each call,
  and the trees after inserting 10, 5, 15, 3, 7, 12, 18, followed by the tree after
  removing 10 from the last of them.
\<close>

definition ascending_1 :: avl_tree where
  "ascending_1 =
    \<lparr>root = Some 0, tree_size = 1,
     heap = (\<lambda>_. Node_new 0)
       (0 := \<lparr>val = 1, parent = None, left = None, right = None, height = 0\<rparr>),
     nxt = 1\<rparr>"

definition ascending_2 :: avl_tree where
  "ascending_2 =
    \<lparr>root = Some 0, tree_size = 2,
     heap = (\<lambda>_. Node_new 0)
       (0 := \<lparr>val = 1, parent = None, left = None, right = Some 1, height = 1\<rparr>,
        1 := \<lparr>val = 2, parent = Some 0, left = None, right = None, height = 0\<rparr>),
     nxt = 2\<rparr>"

definition ascending_3 :: avl_tree where
  "ascending_3 =
    \<lparr>root = Some 1, tree_size = 3,
     heap = (\<lambda>_. Node_new 0)
       (0 := \<lparr>val = 1, parent = Some 1, left = None, right = None, height = 0\<rparr>,
        1 := \<lparr>val = 2, parent = None, left = Some 0, right = Some 2, height = 1\<rparr>,
        2 := \<lparr>val = 3, parent = Some 1, left = None, right = None, height = 0\<rparr>),
     nxt = 3\<rparr>"

definition ascending_4 :: avl_tree where
  "ascending_4 =
    \<lparr>root = Some 1, tree_size = 4,
     heap = (\<lambda>_. Node_new 0)
       (0 := \<lparr>val = 1, parent = Some 1, left = None, right = None, height = 0\<rparr>,
        1 := \<lparr>val = 2, parent = None, left = Some 0, right = Some 2, height = 2\<rparr>,
        2 := \<lparr>val = 3, parent = Some 1, left = None, right = Some 3, height = 1\<rparr>,
        3 := \<lparr>val = 4, parent = Some 2, left = None, right = None, height = 0\<rparr>),
     nxt = 4\<rparr>"

definition ascending_5 :: avl_tree where
  "ascending_5 =
    \<lparr>root = Some 1, tree_size = 5,
     heap = (\<lambda>_. Node_new 0)
       (0 := \<lparr>val = 1, parent = Some 1, left = None, right = None, height = 0\<rparr>,
        1 := \<lparr>val = 2, parent = None, left = Some 0, right = Some 3, height = 2\<rparr>,
        2 := \<lparr>val = 3, parent = Some 3, left = None, right = None, height = 0\<rparr>,
        3 := \<lparr>val = 4, parent = Some 1, left = Some 2, right = Some 4, height = 1\<rparr>,
        4 := \<lparr>val = 5, parent = Some 3, left = None, right = None, height = 0\<rparr>),
     nxt = 5\<rparr>"

definition ascending_6 :: avl_tree where
  "ascending_6 =
    \<lparr>root = Some 3, tree_size = 6,
     heap = (\<lambda>_. Node_new 0)
       (0 := \<lparr>val = 1, parent = Some 1, left = None, right = None, height = 0\<rparr>,
        1 := \<lparr>val = 2, parent = Some 3, left = Some 0, right = Some 2, height = 1\<rparr>,
        2 := \<lparr>val = 3, parent = Some 1, left = None, right = None, height = 0\<rparr>,
        3 := \<lparr>val = 4, parent = None, left = Some 1, right = Some 4, height = 2\<rparr>,
        4 := \<lparr>val = 5, parent = Some 3, left = None, right = Some 5, height = 1\<rparr>,
        5 := \<lparr>val = 6, parent = Some 4, left = None, right = None, height = 0\<rparr>),
     nxt = 6\<rparr>"

definition ascending_7 :: avl_tree where
  "ascending_7 =
    \<lparr>root = Some 3, tree_size = 7,
     heap = (\<lambda>_. Node_new 0)
       (0 := \<lparr>val = 1, parent = Some 1, left = None, right = None, height = 0\<rparr>,
        1 := \<lparr>val = 2, parent = Some 3, left = Some 0, right = Some 2, height = 1\<rparr>,
        2 := \<lparr>val = 3, parent = Some 1, left = None, right = None, height = 0\<rparr>,
        3 := \<lparr>val = 4, parent = None, left = Some 1, right = Some 5, height = 2\<rparr>,
        4 := \<lparr>val = 5, parent = Some 5, left = None, right = None, height = 0\<rparr>,
        5 := \<lparr>val = 6, parent = Some 3, left = Some 4, right = Some 6, height = 1\<rparr>,
        6 := \<lparr>val = 7, parent = Some 5, left = None, right = None, height = 0\<rparr>),
     nxt = 7\<rparr>"

definition seven_keys_1 :: avl_tree where
  "seven_keys_1 =
    \<lparr>root = Some 0, tree_size = 1,
     heap = (\<lambda>_. Node_new 0)
       (0 := \<lparr>val = 10, parent = None, left = None, right = None, height = 0\<rparr>),
     nxt = 1\<rparr>"

definition seven_keys_2 :: avl_tree where
  "seven_keys_2 =
    \<lparr>root = Some 0, tree_size = 2,
     heap = (\<lambda>_. Node_new 0)
       (0 := \<lparr>val = 10, parent = None, left = Some 1, right = None, height = 1\<rparr>,
        1 := \<lparr>val = 5, parent = Some 0, left = None, right = None, height = 0\<rparr>),
     nxt = 2\<rparr>"

definition seven_keys_3 :: avl_tree where
  "seven_keys_3 =
    \<lparr>root = Some 0, tree_size = 3,
     heap = (\<lambda>_. Node_new 0)
       (0 := \<lparr>val = 10, parent = None, left = Some 1, right = Some 2, height = 1\<rparr>,
        1 := \<lparr>val = 5, parent = Some 0, left = None, right = None, height = 0\<rparr>,
        2 := \<lparr>val = 15, parent = Some 0, left = None, right = None, height = 0\<rparr>),
     nxt = 3\<rparr>"

definition seven_keys_4 :: avl_tree where
  "seven_keys_4 =
    \<lparr>root = Some 0, tree_size = 4,
     heap = (\<lambda>_. Node_new 0)
       (0 := \<lparr>val = 10, parent = None, left = Some 1, right = Some 2, height = 2\<rparr>,
        1 := \<lparr>val = 5, parent = Some 0, left = Some 3, right = None, height = 1\<rparr>,
        2 := \<lparr>val = 15, parent = Some 0, left = None, right = None, height = 0\<rparr>,
        3 := \<lparr>val = 3, parent = Some 1, left = None, right = None, height = 0\<rparr>),
     nxt = 4\<rparr>"

definition seven_keys_5 :: avl_tree where
  "seven_keys_5 =
    \<lparr>root = Some 0, tree_size = 5,
     heap = (\<lambda>_. Node_new 0)
       (0 := \<lparr>val = 10, parent = None, left = Some 1, right = Some 2, height = 2\<rparr>,
        1 := \<lparr>val = 5, parent = Some 0, left = Some 3, right = Some 4, height = 1\<rparr>,
        2 := \<lparr>val = 15, parent = Some 0, left = None, right = None, height = 0\<rparr>,
        3 := \<lparr>val = 3, parent = Some 1, left = None, right = None, height = 0\<rparr>,
        4 := \<lparr>val = 7, parent = Some 1, left = None, right = None, height = 0\<rparr>),
     nxt = 5\<rparr>"

definition seven_keys_6 :: avl_tree where
  "seven_keys_6 =
    \<lparr>root = Some 0, tree_size = 6,
     heap = (\<lambda>_. Node_new 0)
       (0 := \<lparr>val = 10, parent = None, left = Some 1, right = Some 2, height = 2\<rparr>,
        1 := \<lparr>val = 5, parent = Some 0, left = Some 3, right = Some 4, height = 1\<rparr>,
        2 := \<lparr>val = 15, parent = Some 0, left = Some 5, right = None, height = 1\<rparr>,
        3 := \<lparr>val = 3, parent = Some 1, left = None, right = None, height = 0\<rparr>,
        4 := \<lparr>val = 7, parent = Some 1, left = None, right = None, height = 0\<rparr>,
        5 := \<lparr>val = 12, parent = Some 2, left = None, right = None, height = 0\<rparr>),
     nxt = 6\<rparr>"

definition seven_keys_7 :: avl_tree where
  "seven_keys_7 =
    \<lparr>root = Some 0, tree_size = 7,
     heap = (\<lambda>_. Node_new 0)
       (0 := \<lparr>val = 10, parent = None, left = Some 1, right = Some 2, height = 2\<rparr>,
        1 := \<lparr>val = 5, parent = Some 0, left = Some 3, right = Some 4, height = 1\<rparr>,
        2 := \<lparr>val = 15, parent = Some 0, left = Some 5, right = Some 6, height = 1\<rparr>,
        3 := \<lparr>val = 3, parent = Some 1, left = None, right = None, height = 0\<rparr>,
        4 := \<lparr>val = 7, parent = Some 1, left = None, right = None, height = 0\<rparr>,
        5 := \<lparr>val = 12, parent = Some 2, left = None, right = None, height = 0\<rparr>,
        6 := \<lparr>val = 18, parent = Some 2, left = None, right = None, height = 0\<rparr>),
     nxt = 7\<rparr>"

definition seven_keys_removed :: avl_tree where
  "seven_keys_removed =
    \<lparr>root = Some 0, tree_size = 6,
     heap = (\<lambda>_. Node_new 0)
       (0 := \<lparr>val = 12, parent = None, left = Some 1, right = Some 2, height = 2\<rparr>,
        1 := \<lparr>val = 5, parent = Some 0, left = Some 3, right = Some 4, height = 1\<rparr>,
        2 := \<lparr>val = 15, parent = Some 0, left = None, right = Some 6, height = 1\<rparr>,
        3 := \<lparr>val = 3, parent = Some 1, left = None, right = None, height = 0\<rparr>,
        4 := \<lparr>val = 7, parent = Some 1, left = None, right = None, height = 0\<rparr>,
        5 := \<lparr>val = 12, parent = Some 2, left = None, right = None, height = 0\<rparr>,
        6 := \<lparr>val = 18, parent = Some 2, left = None, right = None, height = 0\<rparr>,
        7 := \<lparr>val = 10, parent = None, left = None, right = None, height = 0\<rparr>),
     nxt = 8\<rparr>"

section \<open>The store and the tree it holds\<close>

lemma repr_frame: "a \<notin> set (addrs t) \<Longrightarrow> repr (h(a := x)) par t = repr h par t"
  by (induction t arbitrary: par) auto

lemma ctx_frame: "a \<notin> set (faddrs fs) \<Longrightarrow> ctx (h(a := x)) q fs rt = ctx h q fs rt"
  by (induction fs arbitrary: q rule: faddrs.induct) (auto simp: repr_frame split: dir.splits)

lemma repr_child_height: "repr h par t \<Longrightarrow> child_height h (raddr t) = sh t"
  by (cases t) (auto simp: child_height_def)

lemma avl_sh_ge: "avl t \<Longrightarrow> - 1 \<le> sh t"
  by (induction t) auto


lemma search_loop_None: "search_loop h sn None result = Some result"
  by (subst search_loop.simps) simp

lemma search_loop_Some: "search_loop h sn (Some c) result =
  (if val (h c) = val (h sn) then Some (result\<lparr>searched_node := Some c\<rparr>)
   else search_loop h sn (if val (h sn) < val (h c) then left (h c) else right (h c))
          (if (if val (h sn) < val (h c) then left (h c) else right (h c)) = None
           then result\<lparr>insert_place := Some c\<rparr> else result))"
  by (subst search_loop.simps) (simp add: Let_def)

lemma balance_loop_None: "balance_loop s None = Some (Inr s)"
  by (subst balance_loop.simps) simp

lemma balance_loop_Some: "balance_loop s (Some c) =
  (case balance_step s c of
     Inl e \<Rightarrow> Some (Inl e)
   | Inr s' \<Rightarrow> balance_loop s' (parent (heap s' c)))"
  by (subst balance_loop.simps) simp

lemma successor_loop_unfold: "successor_loop h a =
  (case left (h a) of None \<Rightarrow> Some a | Some l \<Rightarrow> successor_loop h l)"
  by (subst successor_loop.simps) simp

lemma descend_repr:
  assumes "repr h (ptop fs) t" "ctx h (raddr t) fs rt" "descend k t fs = (t', fs')"
  shows "repr h (ptop fs') t' \<and> ctx h (raddr t') fs' rt"
  using assms
proof (induction k t fs rule: descend.induct)
  case (1 k fs)
  then show ?case by simp
next
  case (2 k l a v ht r fs)
  then show ?case by (auto split: if_splits)
qed

lemma descend_search:
  assumes "repr h par t" "val (h sn) = k" "descend k t fs = (t', fs')"
  shows "search_loop h sn (raddr t) res =
     Some (if t' = Leaf then (if t = Leaf then res else res\<lparr>insert_place := ptop fs'\<rparr>)
           else res\<lparr>searched_node := raddr t'\<rparr>)"
  using assms
proof (induction k t fs arbitrary: par res rule: descend.induct)
  case (1 k fs)
  then show ?case by (simp add: search_loop_None)
next
  case (2 k l a v ht r fs)
  show ?case
  proof (cases "v = k")
    case True
    with 2 show ?thesis by (auto simp: search_loop_Some)
  next
    case False
    note neq = this
    show ?thesis
    proof (cases "k < v")
      case True
      with neq 2 have d: "descend k l (Frame L a v r # fs) = (t', fs')" by simp
      from 2(3) have rl: "repr h (Some a) l" and ha: "left (h a) = raddr l" "val (h a) = v" by auto
      from "2.IH"(1)[OF neq True rl 2(4) d]
      have "search_loop h sn (raddr l) res' =
     Some (if t' = Leaf then (if l = Leaf then res' else res'\<lparr>insert_place := ptop fs'\<rparr>)
           else res'\<lparr>searched_node := raddr t'\<rparr>)" for res' .
      then show ?thesis using neq True ha 2(4) d
        by (cases l) (auto simp: search_loop_Some)
    next
      case False
      with neq 2 have d: "descend k r (Frame R a v l # fs) = (t', fs')" by simp
      from 2(3) have rl: "repr h (Some a) r" and ha: "right (h a) = raddr r" "val (h a) = v" by auto
      from "2.IH"(2)[OF neq False rl 2(4) d]
      have "search_loop h sn (raddr r) res' =
     Some (if t' = Leaf then (if r = Leaf then res' else res'\<lparr>insert_place := ptop fs'\<rparr>)
           else res'\<lparr>searched_node := raddr t'\<rparr>)" for res' .
      then show ?thesis using neq False ha 2(4) d
        by (cases r) (auto simp: search_loop_Some)
    qed
  qed
qed

lemma child_height_simps [simp]:
  "child_height h None = - 1" "child_height h (Some a) = height (h a)"
  by (simp_all add: child_height_def)

lemma raddr_notin: "x \<notin> set (addrs t) \<Longrightarrow> raddr t \<noteq> Some x"
  by (cases t) auto

lemma raddr_in: "raddr t = Some x \<Longrightarrow> x \<in> set (addrs t)"
  by (cases t) auto

lemma repr_cong: "(\<And>x. x \<in> set (addrs t) \<Longrightarrow> h' x = h x) \<Longrightarrow> repr h' par t = repr h par t"
  by (induction t arbitrary: par) auto

lemma ctx_cong:
  "(\<And>x. x \<in> set (faddrs fs) \<Longrightarrow> h' x = h x) \<Longrightarrow> ctx h' q fs rt = ctx h q fs rt"
proof (induction fs arbitrary: q rule: faddrs.induct)
  case 1
  then show ?case by simp
next
  case (2 d a v sib fs)
  have "repr h' (Some a) sib = repr h (Some a) sib"
    by (rule repr_cong) (simp add: 2)
  moreover have "ctx h' (Some a) fs rt = ctx h (Some a) fs rt"
    by (rule "2.IH") (simp add: 2)
  moreover have "h' a = h a" by (simp add: 2)
  ultimately show ?case by (simp split: dir.split)
qed

lemma repr_sh: "repr h par t \<Longrightarrow> child_height h (raddr t) = sh t"
  by (cases t) auto

lemma repr_reparent:
  "repr h par t \<Longrightarrow> distinct (addrs t) \<Longrightarrow>
   repr (case raddr t of None \<Rightarrow> h | Some g \<Rightarrow> set_parent h g par') par' t"
  by (cases t) (auto simp: set_parent_def repr_frame)

lemma reparent_other:
  "x \<notin> set (addrs t) \<Longrightarrow>
   (case raddr t of None \<Rightarrow> h | Some g \<Rightarrow> set_parent h g par') x = h x"
  by (cases t) (auto simp: set_parent_def)

lemma update_height_fields [simp]:
  "root (update_height s a) = root s" "tree_size (update_height s a) = tree_size s"
  "nxt (update_height s a) = nxt s"
  by (simp_all add: update_height_def Let_def)

lemma update_height_other: "x \<noteq> a \<Longrightarrow> heap (update_height s a) x = heap s x"
  by (simp add: update_height_def Let_def set_height_def)

lemma update_height_repr:
  assumes "repr (heap s) par (Node l a v h0 r)" "a \<notin> set (addrs l)" "a \<notin> set (addrs r)"
  shows "repr (heap (update_height s a)) par (Node l a v (1 + max (sh l) (sh r)) r)"
proof -
  from assms(1) have ha: "heap s a = \<lparr>val = v, parent = par, left = raddr l, right = raddr r, height = h0\<rparr>"
    and l: "repr (heap s) (Some a) l" and r: "repr (heap s) (Some a) r" by simp_all
  have "heap (update_height s a) a =
      \<lparr>val = v, parent = par, left = raddr l, right = raddr r, height = 1 + max (sh l) (sh r)\<rparr>"
    using repr_sh[OF l] repr_sh[OF r]
    by (simp add: update_height_def Let_def set_height_def ha)
  moreover have "repr (heap (update_height s a)) (Some a) l"
    using l assms(2) by (simp add: update_height_def Let_def set_height_def repr_frame)
  moreover have "repr (heap (update_height s a)) (Some a) r"
    using r assms(3) by (simp add: update_height_def Let_def set_height_def repr_frame)
  ultimately show ?thesis by simp
qed

lemma relink_ctx:
  assumes c: "ctx h (Some a) fs (root s)"
    and agree: "\<And>x. x \<in> set (faddrs fs) \<Longrightarrow> h5 x = h x"
    and d: "distinct (faddrs fs)" "a \<notin> set (faddrs fs)"
    and s1: "s1 = (case ptop fs of
                     None \<Rightarrow> s\<lparr>root := Some b, heap := h5\<rparr>
                   | Some p \<Rightarrow> if left (h5 p) = Some a
                       then s\<lparr>heap := set_left h5 p (Some b)\<rparr>
                       else s\<lparr>heap := set_right h5 p (Some b)\<rparr>)"
  shows "ctx (heap s1) (Some b) fs (root s1) \<and> tree_size s1 = tree_size s \<and> nxt s1 = nxt s \<and>
         (\<forall>x. x \<notin> set (faddrs fs) \<longrightarrow> heap s1 x = h5 x)"
proof (cases fs rule: faddrs.cases)
  case 1
  then show ?thesis using s1 by simp
next
  case (2 dd p pv sib fs')
  have c5: "ctx h5 (Some a) fs (root s)"
    using c ctx_cong[of fs h5 h "Some a" "root s"] agree by blast
  from d 2 have nsib: "a \<notin> set (addrs sib)" by simp
  show ?thesis
  proof (cases dd)
    case L
    with c5 2 have "left (h5 p) = Some a" by simp
    then have e: "s1 = s\<lparr>heap := set_left h5 p (Some b)\<rparr>" using s1 2 by simp
    show ?thesis using c5 2 L d
      by (simp add: e set_left_def repr_frame ctx_frame)
  next
    case R
    with c5 2 have "left (h5 p) = raddr sib" by simp
    with raddr_notin[OF nsib] have "left (h5 p) \<noteq> Some a" by simp
    then have e: "s1 = s\<lparr>heap := set_right h5 p (Some b)\<rparr>" using s1 2 by simp
    show ?thesis using c5 2 R d
      by (simp add: e set_right_def repr_frame ctx_frame)
  qed
qed

lemma rotate_left_zip:
  assumes r: "repr (heap s) (ptop fs) (Node l a v ha (Node rl b w hb rr))"
    and c: "ctx (heap s) (Some a) fs (root s)"
    and d: "distinct (addrs (Node l a v ha (Node rl b w hb rr)) @ faddrs fs)"
  shows "\<exists>s'. rotate_left s a = Inr s' \<and>
     repr (heap s') (ptop fs)
       (Node (Node l a v (1 + max (sh l) (sh rl)) rl) b w
          (1 + max (1 + max (sh l) (sh rl)) (sh rr)) rr) \<and>
     ctx (heap s') (Some b) fs (root s') \<and> tree_size s' = tree_size s \<and> nxt s' = nxt s"
proof -
  let ?h = "heap s"
  from r have ha: "?h a = \<lparr>val = v, parent = ptop fs, left = raddr l, right = Some b, height = ha\<rparr>"
    and hb: "?h b = \<lparr>val = w, parent = Some a, left = raddr rl, right = raddr rr, height = hb\<rparr>"
    and rl: "repr ?h (Some a) l" and rrl: "repr ?h (Some b) rl" and rrr: "repr ?h (Some b) rr"
    by simp_all
  from d have ab: "a \<noteq> b" by simp
  from d have dl: "a \<notin> set (addrs l)" "b \<notin> set (addrs l)" by simp_all
  from d have drl: "a \<notin> set (addrs rl)" "b \<notin> set (addrs rl)" "distinct (addrs rl)" by simp_all
  from d have drr: "a \<notin> set (addrs rr)" "b \<notin> set (addrs rr)" by simp_all
  from d have df: "a \<notin> set (faddrs fs)" "b \<notin> set (faddrs fs)" "distinct (faddrs fs)" by simp_all
  from d have dx: "set (addrs l) \<inter> set (addrs rl) = {}" "set (addrs rr) \<inter> set (addrs rl) = {}"
      "set (faddrs fs) \<inter> set (addrs rl) = {}" by auto
  define lg where "lg = left (?h b)"
  define h1 where "h1 = set_left ?h b (Some a)"
  define h2 where "h2 = set_right h1 a lg"
  define h3 where "h3 = set_parent h2 b (parent (h2 a))"
  define h4 where "h4 = set_parent h3 a (Some b)"
  define h5 where "h5 = (case lg of None \<Rightarrow> h4 | Some g \<Rightarrow> set_parent h4 g (Some a))"
  define s1 where "s1 = (case parent (h5 b) of
                     None \<Rightarrow> s\<lparr>root := Some b, heap := h5\<rparr>
                   | Some p \<Rightarrow> if left (h5 p) = Some a
                       then s\<lparr>heap := set_left h5 p (Some b)\<rparr>
                       else s\<lparr>heap := set_right h5 p (Some b)\<rparr>)"
  define s2 where "s2 = update_height s1 a"
  define s3 where "s3 = update_height s2 b"
  have rb: "right (?h a) = Some b" by (simp add: ha)
  have e: "rotate_left s a = Inr s3"
    unfolding rotate_left_def s3_def s2_def s1_def h5_def h4_def h3_def h2_def h1_def lg_def Let_def
    by (simp add: rb)
  have lg: "lg = raddr rl" by (simp add: lg_def hb)
  have h4a: "h4 a = \<lparr>val = v, parent = Some b, left = raddr l, right = raddr rl, height = ha\<rparr>"
    using ab by (simp add: h4_def h3_def h2_def h1_def lg set_parent_def set_left_def set_right_def ha)
  have h4b: "h4 b = \<lparr>val = w, parent = ptop fs, left = Some a, right = raddr rr, height = hb\<rparr>"
    using ab by (simp add: h4_def h3_def h2_def h1_def lg set_parent_def set_left_def set_right_def ha hb)
  have h4o: "h4 x = ?h x" if "x \<noteq> a" "x \<noteq> b" for x
    using that by (simp add: h4_def h3_def h2_def h1_def set_parent_def set_left_def set_right_def)
  have h5e: "h5 = (case raddr rl of None \<Rightarrow> h4 | Some g \<Rightarrow> set_parent h4 g (Some a))"
    by (simp add: h5_def lg)
  have h5a: "h5 a = h4 a" unfolding h5e by (rule reparent_other[OF drl(1)])
  have h5b: "h5 b = h4 b" unfolding h5e by (rule reparent_other[OF drl(2)])
  have h5o: "h5 x = ?h x" if "x \<noteq> a" "x \<noteq> b" "x \<notin> set (addrs rl)" for x
    unfolding h5e using reparent_other[OF that(3), of h4 "Some a"] h4o[OF that(1,2)] by simp
  have s1e: "s1 = (case ptop fs of
                     None \<Rightarrow> s\<lparr>root := Some b, heap := h5\<rparr>
                   | Some p \<Rightarrow> if left (h5 p) = Some a
                       then s\<lparr>heap := set_left h5 p (Some b)\<rparr>
                       else s\<lparr>heap := set_right h5 p (Some b)\<rparr>)"
    unfolding s1_def by (simp add: h5b h4b)
  have agree: "\<And>x. x \<in> set (faddrs fs) \<Longrightarrow> h5 x = ?h x"
    using df dx by (intro h5o) auto
  from relink_ctx[OF c agree df(3) df(1) s1e]
  have c1: "ctx (heap s1) (Some b) fs (root s1)" and f1: "tree_size s1 = tree_size s" "nxt s1 = nxt s"
    and o1: "\<And>x. x \<notin> set (faddrs fs) \<Longrightarrow> heap s1 x = h5 x" by auto
  have o1h: "heap s1 x = ?h x" if "x \<notin> set (faddrs fs)" "x \<noteq> a" "x \<noteq> b" "x \<notin> set (addrs rl)" for x
    using o1[OF that(1)] h5o[OF that(2,3,4)] by simp
  have xl: "x \<notin> set (faddrs fs) \<and> x \<noteq> a \<and> x \<noteq> b \<and> x \<notin> set (addrs rl)" if "x \<in> set (addrs l)" for x
    using d that by auto
  have xr: "x \<notin> set (faddrs fs) \<and> x \<noteq> a \<and> x \<noteq> b \<and> x \<notin> set (addrs rl)" if "x \<in> set (addrs rr)" for x
    using d that by auto
  have xrl: "x \<notin> set (faddrs fs)" if "x \<in> set (addrs rl)" for x
    using d that by auto
  have "repr h4 (Some b) rl = repr ?h (Some b) rl"
    using drl by (intro repr_cong h4o) auto
  with rrl have "repr h4 (Some b) rl" by simp
  from repr_reparent[OF this drl(3), of "Some a"] have "repr h5 (Some a) rl" by (simp add: h5e)
  moreover have "repr (heap s1) (Some a) rl = repr h5 (Some a) rl"
    by (intro repr_cong o1 xrl)
  ultimately have rl1: "repr (heap s1) (Some a) rl" by simp
  have "repr (heap s1) (Some a) l = repr ?h (Some a) l"
    using xl by (intro repr_cong o1h) auto
  with rl have l1: "repr (heap s1) (Some a) l" by simp
  have "repr (heap s1) (Some b) rr = repr ?h (Some b) rr"
    using xr by (intro repr_cong o1h) auto
  with rrr have rr1: "repr (heap s1) (Some b) rr" by simp
  have a1: "repr (heap s1) (Some b) (Node l a v ha rl)"
    using l1 rl1 o1[OF df(1)] h5a h4a by simp
  have a2: "repr (heap s2) (Some b) (Node l a v (1 + max (sh l) (sh rl)) rl)"
    unfolding s2_def by (rule update_height_repr[OF a1 dl(1) drl(1)])
  have "repr (heap s2) (Some b) rr = repr (heap s1) (Some b) rr"
    unfolding s2_def using drr by (intro repr_cong update_height_other) auto
  with rr1 have rr2: "repr (heap s2) (Some b) rr" by simp
  have "heap s2 b = h4 b"
    using ab o1[OF df(2)] h5b by (simp add: s2_def update_height_other)
  with rr2 a2 h4b
  have b2: "repr (heap s2) (ptop fs) (Node (Node l a v (1 + max (sh l) (sh rl)) rl) b w hb rr)"
    by simp
  have nb: "b \<notin> set (addrs (Node l a v (1 + max (sh l) (sh rl)) rl))"
    using dl drl ab by simp
  have b3: "repr (heap s3) (ptop fs) (Node (Node l a v (1 + max (sh l) (sh rl)) rl) b w
          (1 + max (sh (Node l a v (1 + max (sh l) (sh rl)) rl)) (sh rr)) rr)"
    unfolding s3_def by (rule update_height_repr[OF b2 nb drr(2)])
  have xf: "x \<noteq> a \<and> x \<noteq> b" if "x \<in> set (faddrs fs)" for x
    using df that by auto
  have "ctx (heap s3) (Some b) fs (root s3) = ctx (heap s1) (Some b) fs (root s1)"
    unfolding s3_def s2_def update_height_fields
    by (intro ctx_cong) (simp add: update_height_other xf)
  with c1 have c3: "ctx (heap s3) (Some b) fs (root s3)" by simp
  have f3: "tree_size s3 = tree_size s" "nxt s3 = nxt s"
    using f1 by (simp_all add: s3_def s2_def)
  from b3 have b3': "repr (heap s3) (ptop fs)
       (Node (Node l a v (1 + max (sh l) (sh rl)) rl) b w
          (1 + max (1 + max (sh l) (sh rl)) (sh rr)) rr)" by simp
  show ?thesis using e b3' c3 f3 by blast
qed

lemma rotate_right_zip:
  assumes r: "repr (heap s) (ptop fs) (Node (Node ll b w hb lr) a v ha r)"
    and c: "ctx (heap s) (Some a) fs (root s)"
    and d: "distinct (addrs (Node (Node ll b w hb lr) a v ha r) @ faddrs fs)"
  shows "\<exists>s'. rotate_right s a = Inr s' \<and>
     repr (heap s') (ptop fs)
       (Node ll b w (1 + max (sh ll) (1 + max (sh lr) (sh r)))
          (Node lr a v (1 + max (sh lr) (sh r)) r)) \<and>
     ctx (heap s') (Some b) fs (root s') \<and> tree_size s' = tree_size s \<and> nxt s' = nxt s"
proof -
  let ?h = "heap s"
  from r have ha: "?h a = \<lparr>val = v, parent = ptop fs, left = Some b, right = raddr r, height = ha\<rparr>"
    and hb: "?h b = \<lparr>val = w, parent = Some a, left = raddr ll, right = raddr lr, height = hb\<rparr>"
    and rr: "repr ?h (Some a) r" and rlr: "repr ?h (Some b) lr" and rll: "repr ?h (Some b) ll"
    by simp_all
  from d have ab: "a \<noteq> b" by simp
  from d have dr: "a \<notin> set (addrs r)" "b \<notin> set (addrs r)" by simp_all
  from d have dlr: "a \<notin> set (addrs lr)" "b \<notin> set (addrs lr)" "distinct (addrs lr)" by simp_all
  from d have dll: "a \<notin> set (addrs ll)" "b \<notin> set (addrs ll)" by simp_all
  from d have df: "a \<notin> set (faddrs fs)" "b \<notin> set (faddrs fs)" "distinct (faddrs fs)" by simp_all
  define rg where "rg = right (?h b)"
  define h1 where "h1 = set_right ?h b (Some a)"
  define h2 where "h2 = set_left h1 a rg"
  define h3 where "h3 = set_parent h2 b (parent (h2 a))"
  define h4 where "h4 = set_parent h3 a (Some b)"
  define h5 where "h5 = (case rg of None \<Rightarrow> h4 | Some g \<Rightarrow> set_parent h4 g (Some a))"
  define s1 where "s1 = (case parent (h5 b) of
                     None \<Rightarrow> s\<lparr>root := Some b, heap := h5\<rparr>
                   | Some p \<Rightarrow> if left (h5 p) = Some a
                       then s\<lparr>heap := set_left h5 p (Some b)\<rparr>
                       else s\<lparr>heap := set_right h5 p (Some b)\<rparr>)"
  define s2 where "s2 = update_height s1 a"
  define s3 where "s3 = update_height s2 b"
  have lb: "left (?h a) = Some b" by (simp add: ha)
  have e: "rotate_right s a = Inr s3"
    unfolding rotate_right_def s3_def s2_def s1_def h5_def h4_def h3_def h2_def h1_def rg_def Let_def
    by (simp add: lb)
  have rg: "rg = raddr lr" by (simp add: rg_def hb)
  have h4a: "h4 a = \<lparr>val = v, parent = Some b, left = raddr lr, right = raddr r, height = ha\<rparr>"
    using ab by (simp add: h4_def h3_def h2_def h1_def rg set_parent_def set_left_def set_right_def ha)
  have h4b: "h4 b = \<lparr>val = w, parent = ptop fs, left = raddr ll, right = Some a, height = hb\<rparr>"
    using ab by (simp add: h4_def h3_def h2_def h1_def rg set_parent_def set_left_def set_right_def ha hb)
  have h4o: "h4 x = ?h x" if "x \<noteq> a" "x \<noteq> b" for x
    using that by (simp add: h4_def h3_def h2_def h1_def set_parent_def set_left_def set_right_def)
  have h5e: "h5 = (case raddr lr of None \<Rightarrow> h4 | Some g \<Rightarrow> set_parent h4 g (Some a))"
    by (simp add: h5_def rg)
  have h5a: "h5 a = h4 a" unfolding h5e by (rule reparent_other[OF dlr(1)])
  have h5b: "h5 b = h4 b" unfolding h5e by (rule reparent_other[OF dlr(2)])
  have h5o: "h5 x = ?h x" if "x \<noteq> a" "x \<noteq> b" "x \<notin> set (addrs lr)" for x
    unfolding h5e using reparent_other[OF that(3), of h4 "Some a"] h4o[OF that(1,2)] by simp
  have s1e: "s1 = (case ptop fs of
                     None \<Rightarrow> s\<lparr>root := Some b, heap := h5\<rparr>
                   | Some p \<Rightarrow> if left (h5 p) = Some a
                       then s\<lparr>heap := set_left h5 p (Some b)\<rparr>
                       else s\<lparr>heap := set_right h5 p (Some b)\<rparr>)"
    unfolding s1_def by (simp add: h5b h4b)
  have xf: "x \<noteq> a \<and> x \<noteq> b \<and> x \<notin> set (addrs lr)" if "x \<in> set (faddrs fs)" for x
    using d that by auto
  have agree: "\<And>x. x \<in> set (faddrs fs) \<Longrightarrow> h5 x = ?h x"
    using xf by (intro h5o) auto
  from relink_ctx[OF c agree df(3) df(1) s1e]
  have c1: "ctx (heap s1) (Some b) fs (root s1)" and f1: "tree_size s1 = tree_size s" "nxt s1 = nxt s"
    and o1: "\<And>x. x \<notin> set (faddrs fs) \<Longrightarrow> heap s1 x = h5 x" by auto
  have o1h: "heap s1 x = ?h x" if "x \<notin> set (faddrs fs)" "x \<noteq> a" "x \<noteq> b" "x \<notin> set (addrs lr)" for x
    using o1[OF that(1)] h5o[OF that(2,3,4)] by simp
  have xr: "x \<notin> set (faddrs fs) \<and> x \<noteq> a \<and> x \<noteq> b \<and> x \<notin> set (addrs lr)" if "x \<in> set (addrs r)" for x
    using d that by auto
  have xll: "x \<notin> set (faddrs fs) \<and> x \<noteq> a \<and> x \<noteq> b \<and> x \<notin> set (addrs lr)" if "x \<in> set (addrs ll)" for x
    using d that by auto
  have xlr: "x \<notin> set (faddrs fs)" if "x \<in> set (addrs lr)" for x
    using d that by auto
  have "repr h4 (Some b) lr = repr ?h (Some b) lr"
    using dlr by (intro repr_cong h4o) auto
  with rlr have "repr h4 (Some b) lr" by simp
  from repr_reparent[OF this dlr(3), of "Some a"] have "repr h5 (Some a) lr" by (simp add: h5e)
  moreover have "repr (heap s1) (Some a) lr = repr h5 (Some a) lr"
    by (intro repr_cong o1 xlr)
  ultimately have lr1: "repr (heap s1) (Some a) lr" by simp
  have "repr (heap s1) (Some a) r = repr ?h (Some a) r"
    using xr by (intro repr_cong o1h) auto
  with rr have r1: "repr (heap s1) (Some a) r" by simp
  have "repr (heap s1) (Some b) ll = repr ?h (Some b) ll"
    using xll by (intro repr_cong o1h) auto
  with rll have ll1: "repr (heap s1) (Some b) ll" by simp
  have a1: "repr (heap s1) (Some b) (Node lr a v ha r)"
    using r1 lr1 o1[OF df(1)] h5a h4a by simp
  have a2: "repr (heap s2) (Some b) (Node lr a v (1 + max (sh lr) (sh r)) r)"
    unfolding s2_def by (rule update_height_repr[OF a1 dlr(1) dr(1)])
  have "repr (heap s2) (Some b) ll = repr (heap s1) (Some b) ll"
    unfolding s2_def using dll by (intro repr_cong update_height_other) auto
  with ll1 have ll2: "repr (heap s2) (Some b) ll" by simp
  have "heap s2 b = h4 b"
    using ab o1[OF df(2)] h5b by (simp add: s2_def update_height_other)
  with ll2 a2 h4b
  have b2: "repr (heap s2) (ptop fs) (Node ll b w hb (Node lr a v (1 + max (sh lr) (sh r)) r))"
    by simp
  have nb: "b \<notin> set (addrs (Node lr a v (1 + max (sh lr) (sh r)) r))"
    using dr dlr ab by simp
  have b3: "repr (heap s3) (ptop fs) (Node ll b w
          (1 + max (sh ll) (sh (Node lr a v (1 + max (sh lr) (sh r)) r)))
          (Node lr a v (1 + max (sh lr) (sh r)) r))"
    unfolding s3_def by (rule update_height_repr[OF b2 dll(2) nb])
  have "ctx (heap s3) (Some b) fs (root s3) = ctx (heap s1) (Some b) fs (root s1)"
    unfolding s3_def s2_def update_height_fields
    by (intro ctx_cong) (simp add: update_height_other xf)
  with c1 have c3: "ctx (heap s3) (Some b) fs (root s3)" by simp
  have f3: "tree_size s3 = tree_size s" "nxt s3 = nxt s"
    using f1 by (simp_all add: s3_def s2_def)
  from b3 have b3': "repr (heap s3) (ptop fs)
       (Node ll b w (1 + max (sh ll) (1 + max (sh lr) (sh r)))
          (Node lr a v (1 + max (sh lr) (sh r)) r))" by simp
  show ?thesis using e b3' c3 f3 by blast
qed

lemma avl_sh_Leaf: "avl t \<Longrightarrow> sh t < 0 \<Longrightarrow> t = Leaf"
  by (cases t) (auto dest: avl_sh_ge)

lemma balance_factor_repr:
  "repr h par (Node l a v ht r) \<Longrightarrow> balance_factor h a = sh r - sh l"
  using repr_sh[of h "Some a" l] repr_sh[of h "Some a" r]
  by (simp add: balance_factor_def Let_def)

lemma balance_factor_bf:
  "repr h par t \<Longrightarrow> raddr t = Some a \<Longrightarrow> balance_factor h a = bf t"
  using balance_factor_repr[of h par] by (cases t) auto

lemma rotate_left_rotL:
  assumes "repr (heap s) (ptop fs) t" "ctx (heap s) (raddr t) fs (root s)"
    "distinct (addrs t @ faddrs fs)" "t = Node l a v ha (Node rl b w hb rr)"
  shows "\<exists>s'. rotate_left s a = Inr s' \<and> repr (heap s') (ptop fs) (rotL t) \<and>
     ctx (heap s') (raddr (rotL t)) fs (root s') \<and> tree_size s' = tree_size s \<and> nxt s' = nxt s"
  using rotate_left_zip[of s fs l a v ha rl b w hb rr] assms by simp

lemma rotate_right_rotR:
  assumes "repr (heap s) (ptop fs) t" "ctx (heap s) (raddr t) fs (root s)"
    "distinct (addrs t @ faddrs fs)" "t = Node (Node ll b w hb lr) a v ha r"
  shows "\<exists>s'. rotate_right s a = Inr s' \<and> repr (heap s') (ptop fs) (rotR t) \<and>
     ctx (heap s') (raddr (rotR t)) fs (root s') \<and> tree_size s' = tree_size s \<and> nxt s' = nxt s"
  using rotate_right_zip[of s fs ll b w hb lr a v ha r] assms by simp

lemma addrs_rotL: "set (addrs (rotL t)) = set (addrs t)" "distinct (addrs (rotL t)) = distinct (addrs t)"
  by (induction t rule: rotL.induct) auto

lemma addrs_rotR: "set (addrs (rotR t)) = set (addrs t)" "distinct (addrs (rotR t)) = distinct (addrs t)"
  by (induction t rule: rotR.induct) auto

lemma keys_rotL: "keys (rotL t) = keys t"
  by (induction t rule: rotL.induct) auto

lemma keys_rotR: "keys (rotR t) = keys t"
  by (induction t rule: rotR.induct) auto

lemma addrs_list_rotL: "addrs (rotL t) = addrs t"
  by (induction t rule: rotL.induct) auto

lemma addrs_list_rotR: "addrs (rotR t) = addrs t"
  by (induction t rule: rotR.induct) auto

lemma keys_rebal: "keys (rebal t) = keys t"
  by (cases t) (simp_all add: keys_rotL keys_rotR)

lemma addrs_rebal: "addrs (rebal t) = addrs t"
  by (cases t) (simp_all add: addrs_list_rotL addrs_list_rotR)

lemma node_eqI:
  "val n = v \<Longrightarrow> parent n = p \<Longrightarrow> left n = l \<Longrightarrow> right n = r \<Longrightarrow>
   n = \<lparr>val = v, parent = p, left = l, right = r, height = height n\<rparr>"
  by (cases n) simp

lemma ctx_L_repr:
  assumes "ctx h (raddr t) (Frame L c v r # fs) rt" "repr h (Some c) t"
  shows "repr h (ptop fs) (Node t c v (height (h c)) r) \<and> ctx h (Some c) fs rt"
  using assms node_eqI[of "h c" v "ptop fs" "raddr t" "raddr r"] by simp

lemma ctx_R_repr:
  assumes "ctx h (raddr t) (Frame R c v l # fs) rt" "repr h (Some c) t"
  shows "repr h (ptop fs) (Node l c v (height (h c)) t) \<and> ctx h (Some c) fs rt"
  using assms node_eqI[of "h c" v "ptop fs" "raddr l" "raddr t"] by simp

lemma balance_step_zip:
  assumes r: "repr (heap s) (ptop fs) (Node l c v h0 r)"
    and c: "ctx (heap s) (Some c) fs (root s)"
    and d: "distinct (addrs (Node l c v h0 r) @ faddrs fs)"
    and al: "avl l" and ar: "avl r"
  shows "\<exists>s'. balance_step s c = Inr s' \<and> repr (heap s') (ptop fs) (rebal (Node l c v h0 r)) \<and>
     ctx (heap s') (raddr (rebal (Node l c v h0 r))) fs (root s') \<and>
     tree_size s' = tree_size s \<and> nxt s' = nxt s"
proof -
  define s1 where "s1 = update_height s c"
  define t1 where "t1 = Node l c v (1 + max (sh l) (sh r)) r"
  from d have dc: "c \<notin> set (addrs l)" "c \<notin> set (addrs r)" "c \<notin> set (faddrs fs)" by simp_all
  have r1: "repr (heap s1) (ptop fs) t1"
    unfolding s1_def t1_def by (rule update_height_repr[OF r dc(1,2)])
  have xf: "x \<noteq> c" if "x \<in> set (faddrs fs)" for x using dc that by auto
  have "ctx (heap s1) (Some c) fs (root s1) = ctx (heap s) (Some c) fs (root s)"
    unfolding s1_def update_height_fields
    by (intro ctx_cong) (simp add: update_height_other xf)
  with c have c1: "ctx (heap s1) (Some c) fs (root s1)" by simp
  have f1: "tree_size s1 = tree_size s" "nxt s1 = nxt s" by (simp_all add: s1_def)
  have d1: "distinct (addrs t1 @ faddrs fs)" using d by (simp add: t1_def)
  have bfc: "balance_factor (heap s1) c = sh r - sh l"
    using r1 unfolding t1_def by (rule balance_factor_repr)
  from r1 have rl1: "repr (heap s1) (Some c) l" and rr1: "repr (heap s1) (Some c) r"
    and lc: "left (heap s1 c) = raddr l" and rc: "right (heap s1 c) = raddr r"
    by (simp_all add: t1_def)
  consider (left) "sh r - sh l < -1" | (right) "sh r - sh l > 1"
    | (none) "\<not> sh r - sh l < -1" "\<not> sh r - sh l > 1" by linarith
  then show ?thesis
  proof cases
    case none
    then have "balance_step s c = Inr s1"
      by (simp add: balance_step_def Let_def s1_def[symmetric] bfc)
    moreover have "rebal (Node l c v h0 r) = t1" using none by (simp add: t1_def)
    ultimately show ?thesis using r1 c1 f1 by (simp add: t1_def)
  next
    case left
    with avl_sh_ge[OF ar] have "\<not> sh l < 0" by linarith
    then obtain ll b w hb lr where l: "l = Node ll b w hb lr" by (cases l) auto
    have bfb: "balance_factor (heap s1) b = bf l"
      using balance_factor_bf[OF rl1] l by simp
    have lcb: "left (heap s1 c) = Some b" using lc l by simp
    show ?thesis
    proof (cases "bf l > 0")
      case False
      from rotate_right_rotR[OF r1 _ d1, of ll b w hb lr c v "1 + max (sh l) (sh r)" r] c1 l
      obtain s' where s': "rotate_right s1 c = Inr s'" "repr (heap s') (ptop fs) (rotR t1)"
        "ctx (heap s') (raddr (rotR t1)) fs (root s')" "tree_size s' = tree_size s1" "nxt s' = nxt s1"
        by (auto simp: t1_def)
      have "balance_step s c = Inr s'"
        using left False
        by (simp add: balance_step_def Let_def s1_def[symmetric] bfc lcb bfb s'(1))
      moreover have "rebal (Node l c v h0 r) = rotR t1" using left False l by (simp add: t1_def)
      ultimately show ?thesis using s' f1 by simp
    next
      case True
      with l avl_sh_ge[of ll] al have "\<not> sh lr < 0" by auto
      then obtain lrl g x gh lrr where lr: "lr = Node lrl g x gh lrr" by (cases lr) auto
      have cL: "ctx (heap s1) (raddr l) (Frame L c v r # fs) (root s1)"
        using c1 r1 by (simp add: t1_def)
      have dL: "distinct (addrs l @ faddrs (Frame L c v r # fs))" using d by auto
      have rL: "repr (heap s1) (ptop (Frame L c v r # fs)) l" using rl1 by simp
      from rotate_left_rotL[OF rL cL dL, of ll b w hb lrl g x gh lrr] l lr
      obtain s2 where s2: "rotate_left s1 b = Inr s2" "repr (heap s2) (Some c) (rotL l)"
        "ctx (heap s2) (raddr (rotL l)) (Frame L c v r # fs) (root s2)"
        "tree_size s2 = tree_size s1" "nxt s2 = nxt s1"
        by auto
      define t2 where "t2 = Node (rotL l) c v (height (heap s2 c)) r"
      from ctx_L_repr[OF s2(3,2)] have r2: "repr (heap s2) (ptop fs) t2"
        and c2: "ctx (heap s2) (raddr t2) fs (root s2)" by (simp_all add: t2_def)
      have d2: "distinct (addrs t2 @ faddrs fs)" using d by (simp add: t2_def addrs_list_rotL)
      have t2e: "t2 = Node (Node (Node ll b w (1 + max (sh ll) (sh lrl)) lrl) g x
          (1 + max (1 + max (sh ll) (sh lrl)) (sh lrr)) lrr) c v (height (heap s2 c)) r"
        by (simp add: t2_def l lr)
      from rotate_right_rotR[OF r2 c2 d2 t2e]
      obtain s' where s': "rotate_right s2 c = Inr s'" "repr (heap s') (ptop fs) (rotR t2)"
        "ctx (heap s') (raddr (rotR t2)) fs (root s')" "tree_size s' = tree_size s2" "nxt s' = nxt s2"
        by auto
      have "balance_step s c = Inr s'"
        using left True
        by (simp add: balance_step_def Let_def s1_def[symmetric] bfc lcb bfb s2(1) s'(1))
      moreover have "rebal (Node l c v h0 r) = rotR t2" using left True by (simp add: t2e) (simp add: l lr)
      ultimately show ?thesis using s' s2 f1 by simp
    qed
  next
    case right
    with avl_sh_ge[OF al] have "\<not> sh r < 0" by linarith
    then obtain rl b w hb rr where rt: "r = Node rl b w hb rr" by (cases r) auto
    have bfb: "balance_factor (heap s1) b = bf r"
      using balance_factor_bf[OF rr1] rt by simp
    have rcb: "right (heap s1 c) = Some b" using rc rt by simp
    have nl: "\<not> sh r - sh l < -1" using right by linarith
    show ?thesis
    proof (cases "bf r < 0")
      case False
      from rotate_left_rotL[OF r1 _ d1, of l c v "1 + max (sh l) (sh r)" rl b w hb rr] c1 rt
      obtain s' where s': "rotate_left s1 c = Inr s'" "repr (heap s') (ptop fs) (rotL t1)"
        "ctx (heap s') (raddr (rotL t1)) fs (root s')" "tree_size s' = tree_size s1" "nxt s' = nxt s1"
        by (auto simp: t1_def)
      have "balance_step s c = Inr s'"
        using right nl False
        by (simp add: balance_step_def Let_def s1_def[symmetric] bfc rcb bfb s'(1))
      moreover have "rebal (Node l c v h0 r) = rotL t1" using right nl False rt by (simp add: t1_def)
      ultimately show ?thesis using s' f1 by simp
    next
      case True
      with rt avl_sh_ge[of rr] ar have "\<not> sh rl < 0" by auto
      then obtain rll g x gh rlr where rl: "rl = Node rll g x gh rlr" by (cases rl) auto
      have cR: "ctx (heap s1) (raddr r) (Frame R c v l # fs) (root s1)"
        using c1 r1 by (simp add: t1_def)
      have dR: "distinct (addrs r @ faddrs (Frame R c v l # fs))" using d by auto
      have rR: "repr (heap s1) (ptop (Frame R c v l # fs)) r" using rr1 by simp
      from rotate_right_rotR[OF rR cR dR, of rll g x gh rlr b w hb rr] rt rl
      obtain s2 where s2: "rotate_right s1 b = Inr s2" "repr (heap s2) (Some c) (rotR r)"
        "ctx (heap s2) (raddr (rotR r)) (Frame R c v l # fs) (root s2)"
        "tree_size s2 = tree_size s1" "nxt s2 = nxt s1"
        by auto
      define t2 where "t2 = Node l c v (height (heap s2 c)) (rotR r)"
      from ctx_R_repr[OF s2(3,2)] have r2: "repr (heap s2) (ptop fs) t2"
        and c2: "ctx (heap s2) (raddr t2) fs (root s2)" by (simp_all add: t2_def)
      have d2: "distinct (addrs t2 @ faddrs fs)" using d by (simp add: t2_def addrs_list_rotR)
      have t2e: "t2 = Node l c v (height (heap s2 c)) (Node rll g x
          (1 + max (sh rll) (1 + max (sh rlr) (sh rr))) (Node rlr b w (1 + max (sh rlr) (sh rr)) rr))"
        by (simp add: t2_def rt rl)
      from rotate_left_rotL[OF r2 c2 d2 t2e]
      obtain s' where s': "rotate_left s2 c = Inr s'" "repr (heap s') (ptop fs) (rotL t2)"
        "ctx (heap s') (raddr (rotL t2)) fs (root s')" "tree_size s' = tree_size s2" "nxt s' = nxt s2"
        by auto
      have "balance_step s c = Inr s'"
        using right nl True
        by (simp add: balance_step_def Let_def s1_def[symmetric] bfc rcb bfb s2(1) s'(1))
      moreover have "rebal (Node l c v h0 r) = rotL t2" using right nl True by (simp add: t2e) (simp add: rt rl)
      ultimately show ?thesis using s' s2 f1 by simp
    qed
  qed
qed

lemma avl_rebal_id: "avl t \<Longrightarrow> rebal t = t"
  by (cases t) auto

lemma rebal_shape:
  "(\<exists>h'. rebal (Node l p v h0 r) = Node l p v h' r) \<or>
   (\<exists>ll b w hb lr hp r'. rebal (Node l p v h0 r) = Node ll b w hb (Node lr p v hp r')) \<or>
   (\<exists>l' hp rl b w hb rr. rebal (Node l p v h0 r) = Node (Node l' p v hp rl) b w hb rr)"
proof -
  have R: "(\<exists>h'. rotR (Node x p v h0 r) = Node x p v h' r) \<or>
      (\<exists>ll b w hb lr hp r'. rotR (Node x p v h0 r) = Node ll b w hb (Node lr p v hp r'))" for x
    by (cases x) auto
  have L: "(\<exists>h'. rotL (Node l p v h0 x) = Node l p v h' x) \<or>
      (\<exists>l' hp rl b w hb rr. rotL (Node l p v h0 x) = Node (Node l' p v hp rl) b w hb rr)" for x
    by (cases x) auto
  show ?thesis
  proof (cases "sh r - sh l < -1")
    case True
    then have "rebal (Node l p v h0 r) = rotR (Node (if bf l > 0 then rotL l else l) p v h0 r)" by simp
    moreover
    have "(\<exists>ll b w hb lr hp r'. rotR (Node (if bf l > 0 then rotL l else l) p v h0 r) = Node ll b w hb (Node lr p v hp r'))
      \<or> rotR (Node (if bf l > 0 then rotL l else l) p v h0 r) = Node l p v h0 r"
      by (cases l rule: rotL.cases) auto
    ultimately show ?thesis by auto
  next
    case False
    note nl = this
    show ?thesis
    proof (cases "sh r - sh l > 1")
      case True
      with nl have "rebal (Node l p v h0 r) = rotL (Node l p v h0 (if bf r < 0 then rotR r else r))" by simp
      moreover
      have "(\<exists>l' hp rl b w hb rr. rotL (Node l p v h0 (if bf r < 0 then rotR r else r)) = Node (Node l' p v hp rl) b w hb rr)
        \<or> rotL (Node l p v h0 (if bf r < 0 then rotR r else r)) = Node l p v h0 r"
        by (cases r rule: rotR.cases) auto
      ultimately show ?thesis by auto
    next
      case False
      with nl show ?thesis by simp
    qed
  qed
qed

lemma avl_rebal:
  assumes "avl l" "avl r" "\<bar>sh r - sh l\<bar> \<le> 2"
  shows "avl (rebal (Node l c v h0 r)) \<and>
    (\<bar>sh r - sh l\<bar> \<le> 1 \<longrightarrow> sh (rebal (Node l c v h0 r)) = 1 + max (sh l) (sh r)) \<and>
    (max (sh l) (sh r) \<le> sh (rebal (Node l c v h0 r))) \<and>
    (sh (rebal (Node l c v h0 r)) \<le> 1 + max (sh l) (sh r))"
proof -
  consider (left) "sh r - sh l < -1" | (right) "sh r - sh l > 1"
    | (none) "\<not> sh r - sh l < -1" "\<not> sh r - sh l > 1" by linarith
  then show ?thesis
  proof cases
    case none
    with assms show ?thesis by auto
  next
    case left
    with avl_sh_ge[OF assms(2)] have "\<not> sh l < 0" by linarith
    then obtain ll b w hb lr where l: "l = Node ll b w hb lr" by (cases l) auto
    show ?thesis
    proof (cases "bf l > 0")
      case False
      with left l assms show ?thesis by auto
    next
      case True
      with l avl_sh_ge[of ll] assms have "\<not> sh lr < 0" by auto
      then obtain lrl g x gh lrr where lr: "lr = Node lrl g x gh lrr" by (cases lr) auto
      from True left l lr assms show ?thesis by auto
    qed
  next
    case right
    with avl_sh_ge[OF assms(1)] have "\<not> sh r < 0" by linarith
    then obtain rl b w hb rr where rt: "r = Node rl b w hb rr" by (cases r) auto
    have nl: "\<not> sh r - sh l < -1" using right by linarith
    show ?thesis
    proof (cases "bf r < 0")
      case False
      with right nl rt assms show ?thesis by auto
    next
      case True
      with rt avl_sh_ge[of rr] assms have "\<not> sh rl < 0" by auto
      then obtain rll g x gh rlr where rl: "rl = Node rll g x gh rlr" by (cases rl) auto
      from True right nl rt rl assms show ?thesis by auto
    qed
  qed
qed

lemma repr_parent: "repr h par t \<Longrightarrow> raddr t = Some a \<Longrightarrow> parent (h a) = par"
  by (cases t) auto

lemma next_after_step:
  assumes "repr h par (rebal (Node l p v h0 r))" "distinct (addrs (Node l p v h0 r))"
  shows "parent (h p) = par \<or>
    (parent (h p) = raddr (rebal (Node l p v h0 r)) \<and> raddr (rebal (Node l p v h0 r)) \<noteq> Some p)"
proof -
  from assms(2) have "distinct (addrs (rebal (Node l p v h0 r)))"
    by (simp only: addrs_rebal)
  with rebal_shape[of l p v h0 r] assms(1) show ?thesis
    by (elim disjE exE) auto
qed

lemma rebal_not_Leaf: "rebal (Node l p v h0 r) \<noteq> Leaf"
  using rebal_shape[of l p v h0 r] by auto

lemma height_step:
  fixes X :: int
  assumes "\<bar>a - H\<bar> \<le> 1" "\<bar>b - H\<bar> \<le> 1" "max a b \<le> X" "X \<le> 1 + max a b"
    "\<bar>b - a\<bar> \<le> 1 \<Longrightarrow> X = 1 + max a b"
  shows "\<bar>X - (1 + max H b)\<bar> \<le> 1"
proof (cases "\<bar>b - a\<bar> \<le> 1")
  case True
  from assms(5)[OF True] assms(1,2) show ?thesis by linarith
next
  case False
  with assms(1-4) show ?thesis by linarith
qed

lemma balance_loop_zip:
  assumes "repr (heap s) (ptop fs) t" "ctx (heap s) (raddr t) fs (root s)"
    "distinct (addrs t @ faddrs fs)" "avl t" "ctx_ok fs H" "\<bar>sh t - H\<bar> \<le> 1"
  shows "\<exists>s' T. balance_loop s (ptop fs) = Some (Inr s') \<and> root s' = raddr T \<and>
    repr (heap s') None T \<and> avl T \<and> keys T = pre fs @ keys t @ post fs \<and>
    set (addrs T) = set (addrs t) \<union> set (faddrs fs) \<and> distinct (addrs T) \<and>
    length (addrs T) = length (addrs t) + length (faddrs fs) \<and>
    tree_size s' = tree_size s \<and> nxt s' = nxt s"
  using assms
proof (induction fs arbitrary: s t H rule: faddrs.induct)
  case 1
  then show ?case by (auto simp: balance_loop_None)
next
  case (2 dd p v sib fs)
  define tp where "tp = (case dd of L \<Rightarrow> Node t p v (height (heap s p)) sib
                                   | R \<Rightarrow> Node sib p v (height (heap s p)) t)"
  obtain l r where tpe: "tp = Node l p v (height (heap s p)) r"
    and lr: "(dd = L \<and> l = t \<and> r = sib) \<or> (dd = R \<and> l = sib \<and> r = t)"
    by (cases dd) (auto simp: tp_def)
  from "2.prems"(1) have rt: "repr (heap s) (Some p) t" by simp
  have "repr (heap s) (ptop fs) tp \<and> ctx (heap s) (Some p) fs (root s)"
  proof (cases dd)
    case L
    with ctx_L_repr[of "heap s" t p v sib fs "root s"] "2.prems"(2) rt show ?thesis
      by (simp add: tp_def)
  next
    case R
    with ctx_R_repr[of "heap s" t p v sib fs "root s"] "2.prems"(2) rt show ?thesis
      by (simp add: tp_def)
  qed
  then have rp: "repr (heap s) (ptop fs) tp" and cp: "ctx (heap s) (Some p) fs (root s)" by simp_all
  have dp: "distinct (addrs tp @ faddrs fs)"
    using "2.prems"(3) by (cases dd) (auto simp: tp_def)
  from "2.prems"(5) have asib: "avl sib" and hs: "\<bar>sh sib - H\<bar> \<le> 1"
    and ok: "ctx_ok fs (1 + max H (sh sib))" by simp_all
  have al: "avl l" and ar: "avl r" using lr asib "2.prems"(4) by auto
  have mx: "max (sh l) (sh r) = max (sh t) (sh sib)" and ab: "\<bar>sh r - sh l\<bar> = \<bar>sh sib - sh t\<bar>"
    using lr by auto
  have diff: "\<bar>sh r - sh l\<bar> \<le> 2" unfolding ab using hs "2.prems"(6) by linarith
  from balance_step_zip[OF rp[unfolded tpe] cp dp[unfolded tpe] al ar]
  obtain s1 where s1: "balance_step s p = Inr s1" "repr (heap s1) (ptop fs) (rebal tp)"
    "ctx (heap s1) (raddr (rebal tp)) fs (root s1)" "tree_size s1 = tree_size s" "nxt s1 = nxt s"
    unfolding tpe by blast
  from avl_rebal[OF al ar diff, of p v "height (heap s p)"]
  have a1: "avl (rebal tp)"
    and b1: "\<bar>sh sib - sh t\<bar> \<le> 1 \<Longrightarrow> sh (rebal tp) = 1 + max (sh t) (sh sib)"
    and b2: "max (sh t) (sh sib) \<le> sh (rebal tp)" and b3: "sh (rebal tp) \<le> 1 + max (sh t) (sh sib)"
    unfolding tpe mx ab by simp_all
  have hh: "\<bar>sh (rebal tp) - (1 + max H (sh sib))\<bar> \<le> 1"
    by (rule height_step[OF "2.prems"(6) hs b2 b3 b1])
  have d1: "distinct (addrs (rebal tp) @ faddrs fs)" using dp by (simp only: addrs_rebal)
  have k1: "pre fs @ keys (rebal tp) @ post fs = pre (Frame dd p v sib # fs) @ keys t @ post (Frame dd p v sib # fs)"
    unfolding keys_rebal by (cases dd) (simp_all add: tp_def)
  have ad1: "set (addrs (rebal tp)) \<union> set (faddrs fs) = set (addrs t) \<union> set (faddrs (Frame dd p v sib # fs))"
    unfolding addrs_rebal by (cases dd) (auto simp: tp_def)
  have len1: "length (addrs (rebal tp)) + length (faddrs fs) = length (addrs t) + length (faddrs (Frame dd p v sib # fs))"
    unfolding addrs_rebal by (cases dd) (auto simp: tp_def)
  have loop1: "balance_loop s (ptop (Frame dd p v sib # fs)) = balance_loop s1 (parent (heap s1 p))"
    by (simp add: balance_loop_Some s1(1))
  from dp have "distinct (addrs tp)" by simp
  from next_after_step[OF s1(2)[unfolded tpe] this[unfolded tpe]]
  consider (up) "parent (heap s1 p) = ptop fs"
    | (rot) "parent (heap s1 p) = raddr (rebal tp)" "raddr (rebal tp) \<noteq> Some p"
    unfolding tpe by blast
  then show ?case
  proof cases
    case up
    from "2.IH"[OF s1(2,3) d1 a1 ok hh]
    obtain s' T where *: "balance_loop s1 (ptop fs) = Some (Inr s')" "root s' = raddr T"
      "repr (heap s') None T" "avl T" "keys T = pre fs @ keys (rebal tp) @ post fs"
      "set (addrs T) = set (addrs (rebal tp)) \<union> set (faddrs fs)" "distinct (addrs T)"
      "length (addrs T) = length (addrs (rebal tp)) + length (faddrs fs)"
      "tree_size s' = tree_size s1" "nxt s' = nxt s1" by blast
    show ?thesis
      apply (intro exI[of _ s'] exI[of _ T] conjI)
      using * loop1 up k1 ad1 len1 s1(4,5) by simp_all
  next
    case rot
    obtain l' b w hb r' where t': "rebal tp = Node l' b w hb r'"
      using rebal_not_Leaf[of l p v "height (heap s p)" r] unfolding tpe
      by (cases "rebal (Node l p v (height (heap s p)) r)") auto
    from a1 t' have al': "avl l'" and ar': "avl r'" by simp_all
    have c1': "ctx (heap s1) (Some b) fs (root s1)" using s1(3) t' by simp
    from balance_step_zip[OF s1(2)[unfolded t'] c1' d1[unfolded t'] al' ar']
    obtain s2 where s2: "balance_step s1 b = Inr s2" "repr (heap s2) (ptop fs) (rebal (rebal tp))"
      "ctx (heap s2) (raddr (rebal (rebal tp))) fs (root s2)" "tree_size s2 = tree_size s1" "nxt s2 = nxt s1"
      unfolding t' by blast
    have id: "rebal (rebal tp) = rebal tp" by (rule avl_rebal_id[OF a1])
    have pb: "parent (heap s2 b) = ptop fs"
      using repr_parent[OF s2(2)] id t' by simp
    have loop2: "balance_loop s1 (parent (heap s1 p)) = balance_loop s2 (ptop fs)"
      using rot t' by (simp add: balance_loop_Some s2(1) pb)
    from "2.IH"[OF s2(2,3)[unfolded id] d1 a1 ok hh]
    obtain s' T where *: "balance_loop s2 (ptop fs) = Some (Inr s')" "root s' = raddr T"
      "repr (heap s') None T" "avl T" "keys T = pre fs @ keys (rebal tp) @ post fs"
      "set (addrs T) = set (addrs (rebal tp)) \<union> set (faddrs fs)" "distinct (addrs T)"
      "length (addrs T) = length (addrs (rebal tp)) + length (faddrs fs)"
      "tree_size s' = tree_size s2" "nxt s' = nxt s2" by blast
    show ?thesis
      apply (intro exI[of _ s'] exI[of _ T] conjI)
      using * loop1 loop2 k1 ad1 len1 s1(4,5) s2(4,5) by simp_all
  qed
qed

lemma descend_keys:
  "descend k t fs = (t', fs') \<Longrightarrow> pre fs' @ keys t' @ post fs' = pre fs @ keys t @ post fs"
  by (induction k t fs rule: descend.induct) (auto split: if_splits)

lemma descend_mset:
  "descend k t fs = (t', fs') \<Longrightarrow> mset (addrs t' @ faddrs fs') = mset (addrs t @ faddrs fs)"
  by (induction k t fs rule: descend.induct) (auto split: if_splits)

lemma descend_addrs:
  assumes "descend k t fs = (t', fs')"
  shows "set (addrs t' @ faddrs fs') = set (addrs t @ faddrs fs)"
    "length (addrs t' @ faddrs fs') = length (addrs t @ faddrs fs)"
    "distinct (addrs t' @ faddrs fs') = distinct (addrs t @ faddrs fs)"
  using descend_mset[OF assms]
  by (rule mset_eq_setD, rule mset_eq_length, rule mset_eq_imp_distinct_iff)

lemma descend_avl:
  "descend k t fs = (t', fs') \<Longrightarrow> avl t \<Longrightarrow> ctx_ok fs (sh t) \<Longrightarrow> avl t' \<and> ctx_ok fs' (sh t')"
proof (induction k t fs rule: descend.induct)
  case (1 k fs)
  then show ?case by simp
next
  case (2 k l a v ht r fs)
  show ?case
  proof (cases "v = k")
    case True
    with 2 show ?thesis by auto
  next
    case False
    note neq = this
    from "2.prems"(2) have al: "avl l" and ar: "avl r" and ht: "ht = 1 + max (sh l) (sh r)"
      and b: "\<bar>sh r - sh l\<bar> \<le> 1" by simp_all
    show ?thesis
    proof (cases "k < v")
      case True
      have "ctx_ok (Frame L a v r # fs) (sh l)" using ar b "2.prems"(3) ht by simp
      from "2.IH"(1)[OF neq True _ al this] "2.prems"(1) neq True show ?thesis by simp
    next
      case False
      have "ctx_ok (Frame R a v l # fs) (sh r)" using al b "2.prems"(3) ht by (simp add: max.commute)
      from "2.IH"(2)[OF neq False _ ar this] "2.prems"(1) neq False show ?thesis by simp
    qed
  qed
qed

lemma descend_bracket:
  "descend k t fs = (t', fs') \<Longrightarrow> sorted_wrt (<) (pre fs @ keys t @ post fs) \<Longrightarrow>
   \<forall>x \<in> set (pre fs). x < k \<Longrightarrow> \<forall>x \<in> set (post fs). k < x \<Longrightarrow>
   (\<forall>x \<in> set (pre fs'). x < k) \<and> (\<forall>x \<in> set (post fs'). k < x) \<and>
   (case t' of Leaf \<Rightarrow> True | Node l a v ht r \<Rightarrow> v = k)"
proof (induction k t fs rule: descend.induct)
  case (1 k fs)
  then show ?case by simp
next
  case (2 k l a v ht r fs)
  show ?case
  proof (cases "v = k")
    case True
    with 2 show ?thesis by auto
  next
    case False
    note neq = this
    from "2.prems"(2) have vr: "\<forall>x \<in> set (keys r). v < x" and vl: "\<forall>x \<in> set (keys l). x < v"
      by (auto simp: sorted_wrt_append)
    show ?thesis
    proof (cases "k < v")
      case True
      have s: "sorted_wrt (<) (pre (Frame L a v r # fs) @ keys l @ post (Frame L a v r # fs))"
        using "2.prems"(2) by simp
      have p: "\<forall>x \<in> set (pre (Frame L a v r # fs)). x < k" using "2.prems"(3) by simp
      have q: "\<forall>x \<in> set (post (Frame L a v r # fs)). k < x"
      proof
        fix x assume "x \<in> set (post (Frame L a v r # fs))"
        then consider "x = v" | "x \<in> set (keys r)" | "x \<in> set (post fs)" by auto
        then show "k < x"
        proof cases
          case 1
          with True show ?thesis by simp
        next
          case 2
          with vr have "v < x" by simp
          with True show ?thesis by linarith
        next
          case 3
          with "2.prems"(4) show ?thesis by simp
        qed
      qed
      from "2.prems"(1) neq True have d: "descend k l (Frame L a v r # fs) = (t', fs')" by simp
      from "2.IH"(1)[OF neq True d s p q] show ?thesis .
    next
      case False
      with neq have vk: "v < k" by simp
      have s: "sorted_wrt (<) (pre (Frame R a v l # fs) @ keys r @ post (Frame R a v l # fs))"
        using "2.prems"(2) by simp
      have p: "\<forall>x \<in> set (pre (Frame R a v l # fs)). x < k"
      proof
        fix x assume "x \<in> set (pre (Frame R a v l # fs))"
        then consider "x = v" | "x \<in> set (keys l)" | "x \<in> set (pre fs)" by auto
        then show "x < k"
        proof cases
          case 1
          with vk show ?thesis by simp
        next
          case 2
          with vl have "x < v" by simp
          with vk show ?thesis by linarith
        next
          case 3
          with "2.prems"(3) show ?thesis by simp
        qed
      qed
      have q: "\<forall>x \<in> set (post (Frame R a v l # fs)). k < x" using "2.prems"(4) by simp
      from "2.prems"(1) neq False have d: "descend k r (Frame R a v l # fs) = (t', fs')" by simp
      from "2.IH"(2)[OF neq False d s p q] show ?thesis .
    qed
  qed
qed

lemma descend_root_found:
  assumes "descend k T [] = (t', fs')" "sorted_wrt (<) (keys T)"
  shows "(t' = Leaf \<longrightarrow> k \<notin> set (keys T)) \<and> (t' \<noteq> Leaf \<longrightarrow> k \<in> set (keys T) \<and> (\<exists>l a ht r. t' = Node l a k ht r))"
proof -
  from descend_keys[OF assms(1)] have k: "pre fs' @ keys t' @ post fs' = keys T" by simp
  from descend_bracket[OF assms(1)] assms(2)
  have b: "\<forall>x \<in> set (pre fs'). x < k" "\<forall>x \<in> set (post fs'). k < x"
    "case t' of Leaf \<Rightarrow> True | Node l a v ht r \<Rightarrow> v = k" by simp_all
  show ?thesis
  proof (cases t')
    case Leaf
    have "set (keys T) = set (pre fs' @ keys t' @ post fs')" by (simp only: k)
    then have "set (keys T) = set (pre fs') \<union> set (post fs')" using Leaf by simp
    with b Leaf show ?thesis by auto
  next
    case (Node l a v ht r)
    with b have "v = k" by simp
    moreover have "set (keys T) = set (pre fs' @ keys t' @ post fs')" by (simp only: k)
    then have "v \<in> set (keys T)" using Node by simp
    ultimately show ?thesis using Node by simp
  qed
qed

lemma sorted_insert_mid:
  "sorted_wrt (<) (xs @ ys) \<Longrightarrow> \<forall>x \<in> set xs. x < k \<Longrightarrow> \<forall>y \<in> set ys. k < y \<Longrightarrow>
   sorted_wrt (<) (xs @ [k] @ ys)" for k :: int
  by (auto simp: sorted_wrt_append)

lemma search_node_zip:
  assumes "repr (heap s) None T" "root s = raddr T" "val (heap s sn) = k"
    "descend k T [] = (t', fs')"
  shows "search_node s sn =
    Some \<lparr>searched_node = raddr t', insert_place = (if t' = Leaf then ptop fs' else None)\<rparr>"
proof -
  have "search_node s sn = search_loop (heap s) sn (raddr T) \<lparr>searched_node = None, insert_place = None\<rparr>"
    by (simp add: search_node_def assms(2))
  also have "\<dots> = Some (if t' = Leaf then (if T = Leaf then \<lparr>searched_node = None, insert_place = None\<rparr>
      else \<lparr>searched_node = None, insert_place = None\<rparr>\<lparr>insert_place := ptop fs'\<rparr>)
           else \<lparr>searched_node = None, insert_place = None\<rparr>\<lparr>searched_node := raddr t'\<rparr>)"
    by (rule descend_search[OF assms(1,3,4)])
  also have "\<dots> = Some \<lparr>searched_node = raddr t', insert_place = (if t' = Leaf then ptop fs' else None)\<rparr>"
    using assms(4) by (cases T) auto
  finally show ?thesis .
qed

lemma attach_zip:
  assumes c: "ctx (heap s) None fs (root s)"
    and hn: "heap s n = Node_new k"
    and d: "distinct (n # faddrs fs)"
    and pr: "\<forall>x \<in> set (pre fs). x < k" and po: "\<forall>x \<in> set (post fs). k < x"
  defines "s1 \<equiv> (case ptop fs of
                        None \<Rightarrow> s\<lparr>root := Some n\<rparr>
                      | Some p \<Rightarrow>
                          let h1 = set_parent (heap s) n (Some p) in
                          if val (h1 n) < val (h1 p)
                          then s\<lparr>heap := set_left h1 p (Some n)\<rparr>
                          else s\<lparr>heap := set_right h1 p (Some n)\<rparr>)"
  shows "repr (heap s1) (ptop fs) (Node Leaf n k 0 Leaf) \<and> ctx (heap s1) (Some n) fs (root s1) \<and>
    tree_size s1 = tree_size s \<and> nxt s1 = nxt s"
proof (cases fs rule: faddrs.cases)
  case 1
  then show ?thesis using c hn by (simp add: s1_def Node_new_def)
next
  case (2 dd p v sib fs')
  from d 2 have np: "n \<noteq> p" and nsib: "n \<notin> set (addrs sib)" "p \<notin> set (addrs sib)"
    and nfs: "n \<notin> set (faddrs fs')" "p \<notin> set (faddrs fs')" by auto
  from c 2 have vp: "val (heap s p) = v" by simp
  show ?thesis
  proof (cases dd)
    case L
    with po 2 have "k < v" by simp
    then have e: "s1 = s\<lparr>heap := set_left (set_parent (heap s) n (Some p)) p (Some n)\<rparr>"
      using 2 np vp hn by (simp add: s1_def Let_def set_parent_def Node_new_def)
    show ?thesis using c 2 L np nsib nfs hn
      by (simp add: e set_left_def set_parent_def Node_new_def repr_frame ctx_frame)
  next
    case R
    with pr 2 have "\<not> k < v" by simp
    then have e: "s1 = s\<lparr>heap := set_right (set_parent (heap s) n (Some p)) p (Some n)\<rparr>"
      using 2 np vp hn by (simp add: s1_def Let_def set_parent_def Node_new_def)
    show ?thesis using c 2 R np nsib nfs hn
      by (simp add: e set_right_def set_parent_def Node_new_def repr_frame ctx_frame)
  qed
qed

lemma settle_leaf_zip:
  assumes r: "repr (heap s) (ptop fs) t" and c: "ctx (heap s) (raddr t) fs (root s)"
    and d: "distinct (addrs t @ faddrs fs)" and a: "avl t" and n: "raddr t = Some n"
  shows "\<exists>s'. balance_loop s (Some n) = balance_loop s' (ptop fs) \<and> repr (heap s') (ptop fs) t \<and>
    ctx (heap s') (raddr t) fs (root s') \<and> tree_size s' = tree_size s \<and> nxt s' = nxt s"
proof -
  from n obtain l v h0 rr where t: "t = Node l n v h0 rr" by (cases t) auto
  from a t have al: "avl l" and ar: "avl rr" by simp_all
  from balance_step_zip[OF r[unfolded t] _ d[unfolded t] al ar] c t
  obtain s' where s': "balance_step s n = Inr s'" "repr (heap s') (ptop fs) (rebal t)"
    "ctx (heap s') (raddr (rebal t)) fs (root s')" "tree_size s' = tree_size s" "nxt s' = nxt s"
    by auto
  have id: "rebal t = t" by (rule avl_rebal_id[OF a])
  have "parent (heap s' n) = ptop fs" using repr_parent[OF s'(2)] id n by simp
  then have "balance_loop s (Some n) = balance_loop s' (ptop fs)"
    by (simp add: balance_loop_Some s'(1))
  with s' id show ?thesis by auto
qed

lemma insert_correct:
  assumes inv: "inv_t s T"
  shows "\<exists>s' T'. AVLTree_insert s (PInt k) = Some (Inr (k \<notin> set (keys T), s')) \<and> inv_t s' T' \<and>
     set (keys T') = set (keys T) \<union> {k} \<and>
     (k \<in> set (keys T) \<longrightarrow> T' = T \<and> root s' = root s \<and> tree_size s' = tree_size s \<and>
        (\<forall>a < nxt s. heap s' a = heap s a))"
proof -
  define n where "n = nxt s"
  define s1 where "s1 = s\<lparr>heap := (heap s)(n := Node_new k), nxt := n + 1\<rparr>"
  from inv have rt: "root s = raddr T" and rp: "repr (heap s) None T" and dT: "distinct (addrs T)"
    and aT: "avl T" and sT: "sorted_wrt (<) (keys T)" and sz: "tree_size s = int (length (addrs T))"
    and lt: "\<forall>a \<in> set (addrs T). a < nxt s" by (simp_all add: inv_t_def)
  have cr: "create_node_from_value s (PInt k) = Inr (n, s1)"
    by (simp add: create_node_from_value_def s1_def n_def)
  from lt have nT: "n \<notin> set (addrs T)" by (auto simp: n_def)
  have r1: "repr (heap s1) None T" using rp nT by (simp add: s1_def repr_frame)
  have rt1: "root s1 = raddr T" by (simp add: s1_def rt)
  have hn: "heap s1 n = Node_new k" by (simp add: s1_def)
  then have vn: "val (heap s1 n) = k" by (simp add: Node_new_def)
  obtain t' fs' where de: "descend k T [] = (t', fs')" by (cases "descend k T []") auto
  note sn = search_node_zip[OF r1 rt1 vn de]
  from descend_root_found[OF de sT]
  have nf: "t' = Leaf \<Longrightarrow> k \<notin> set (keys T)" and fd: "t' \<noteq> Leaf \<Longrightarrow> k \<in> set (keys T)" by auto
  show ?thesis
  proof (cases "t' = Leaf")
    case False
    then have "raddr t' \<noteq> None" by (cases t') auto
    then have "bst_insert s1 n = Some (False, s1)"
      by (simp add: bst_insert_def sn is_found_def)
    then have "AVLTree_insert s (PInt k) = Some (Inr (False, s1))"
      by (simp add: AVLTree_insert_def cr)
    moreover have "inv_t s1 T"
      using r1 rt1 dT aT sT sz lt by (auto simp: inv_t_def s1_def n_def)
    moreover have "\<forall>a < nxt s. heap s1 a = heap s a" by (simp add: s1_def n_def)
    moreover have "root s1 = root s" "tree_size s1 = tree_size s" by (simp_all add: s1_def)
    ultimately show ?thesis using fd[OF False] by auto
  next
    case True
    define s2 where "s2 = (case ptop fs' of
                        None \<Rightarrow> s1\<lparr>root := Some n\<rparr>
                      | Some p \<Rightarrow>
                          let h1 = set_parent (heap s1) n (Some p) in
                          if val (h1 n) < val (h1 p)
                          then s1\<lparr>heap := set_left h1 p (Some n)\<rparr>
                          else s1\<lparr>heap := set_right h1 p (Some n)\<rparr>)"
    define s3 where "s3 = s2\<lparr>tree_size := tree_size s2 + 1\<rparr>"
    define tn where "tn = Node Leaf n k 0 Leaf"
    have bi: "bst_insert s1 n = Some (True, s3)"
      using True by (simp add: bst_insert_def sn is_found_def s3_def s2_def Let_def)
    have "repr (heap s1) (ptop []) T" "ctx (heap s1) (raddr T) [] (root s1)"
      using r1 rt1 by simp_all
    from descend_repr[OF this de] True have c1: "ctx (heap s1) None fs' (root s1)" by simp
    from descend_addrs[OF de] True have fa: "set (faddrs fs') = set (addrs T)"
      "length (faddrs fs') = length (addrs T)" "distinct (faddrs fs')" using dT by simp_all
    have dn: "distinct (n # faddrs fs')" using fa nT by simp
    from descend_bracket[OF de] sT
    have br: "\<forall>x \<in> set (pre fs'). x < k" "\<forall>x \<in> set (post fs'). k < x" by simp_all
    from attach_zip[OF c1 hn dn br]
    have r2: "repr (heap s2) (ptop fs') tn" and c2: "ctx (heap s2) (Some n) fs' (root s2)"
      and f2: "tree_size s2 = tree_size s1" "nxt s2 = nxt s1"
      by (simp_all add: s2_def tn_def)
    have r3: "repr (heap s3) (ptop fs') tn" and c3: "ctx (heap s3) (raddr tn) fs' (root s3)"
      and f3: "tree_size s3 = tree_size s + 1" "nxt s3 = n + 1"
      using r2 c2 f2 by (simp_all add: s3_def s1_def tn_def)
    have d3: "distinct (addrs tn @ faddrs fs')" using dn by (simp add: tn_def)
    have a3: "avl tn" by (simp add: tn_def)
    from settle_leaf_zip[OF r3 c3 d3 a3] 
    obtain s4 where s4: "balance_loop s3 (Some n) = balance_loop s4 (ptop fs')"
      "repr (heap s4) (ptop fs') tn" "ctx (heap s4) (raddr tn) fs' (root s4)"
      "tree_size s4 = tree_size s3" "nxt s4 = nxt s3" by (auto simp: tn_def)
    from descend_avl[OF de aT] True have ok: "ctx_ok fs' (-1)" by simp
    have hh: "\<bar>sh tn - (-1)\<bar> \<le> 1" by (simp add: tn_def)
    from balance_loop_zip[OF s4(2,3) d3 a3 ok hh]
    obtain s5 T' where s5: "balance_loop s4 (ptop fs') = Some (Inr s5)" "root s5 = raddr T'"
      "repr (heap s5) None T'" "avl T'" "keys T' = pre fs' @ keys tn @ post fs'"
      "set (addrs T') = set (addrs tn) \<union> set (faddrs fs')" "distinct (addrs T')"
      "length (addrs T') = length (addrs tn) + length (faddrs fs')"
      "tree_size s5 = tree_size s4" "nxt s5 = nxt s4" by blast
    have ins: "AVLTree_insert s (PInt k) = Some (Inr (True, s5))"
      by (simp add: AVLTree_insert_def cr bi balance_def s4(1) s5(1))
    from descend_keys[OF de] True have kT: "keys T = pre fs' @ post fs'" by simp
    have kT': "keys T' = pre fs' @ [k] @ post fs'" using s5(5) by (simp add: tn_def)
    have srt: "sorted_wrt (<) (keys T')"
      unfolding kT' using sT br unfolding kT by (rule sorted_insert_mid)
    have ks: "set (keys T') = set (keys T) \<union> {k}" unfolding kT' kT by auto
    have "inv_t s5 T'"
      unfolding inv_t_def
      using s5 srt s4(4,5) f3 fa lt sz by (auto simp: tn_def n_def)
    with ins ks nf[OF True] show ?thesis by auto
  qed
qed

lemma remove_leaf_zip:
  assumes r: "repr (heap s) (ptop fs) (Node Leaf a v ha Leaf)"
    and c: "ctx (heap s) (Some a) fs (root s)"
    and d: "distinct (a # faddrs fs)"
  shows "\<exists>s'. bst_remove_leaf s a = (Some a, s') \<and> ctx (heap s') None fs (root s') \<and>
    tree_size s' = tree_size s - 1 \<and> nxt s' = nxt s \<and> heap s' a = heap s a"
proof (cases fs rule: faddrs.cases)
  case 1
  with r c show ?thesis by (simp add: bst_remove_leaf_def)
next
  case (2 dd p pv sib fs')
  from d 2 have ap: "a \<noteq> p" and nsib: "a \<notin> set (addrs sib)" "p \<notin> set (addrs sib)"
    and nfs: "p \<notin> set (faddrs fs')" by auto
  from r 2 have ha: "left (heap s a) = None" "right (heap s a) = None" "parent (heap s a) = Some p"
    by simp_all
  show ?thesis
  proof (cases dd)
    case L
    with c 2 have "left (heap s p) = Some a" by simp
    then have e: "bst_remove_leaf s a =
        (Some a, s\<lparr>heap := set_left (heap s) p None, tree_size := tree_size s - 1\<rparr>)"
      by (simp add: bst_remove_leaf_def ha)
    show ?thesis using c 2 L ap nsib nfs
      by (simp add: e set_left_def repr_frame ctx_frame)
  next
    case R
    with c 2 have "left (heap s p) = raddr sib" by simp
    with raddr_notin[OF nsib(1)] have "left (heap s p) \<noteq> Some a" by simp
    then have e: "bst_remove_leaf s a =
        (Some a, s\<lparr>heap := set_right (heap s) p None, tree_size := tree_size s - 1\<rparr>)"
      by (simp add: bst_remove_leaf_def ha)
    show ?thesis using c 2 R ap nsib nfs
      by (simp add: e set_right_def repr_frame ctx_frame)
  qed
qed

lemma remove_one_child_zip:
  assumes r: "repr (heap s) (ptop fs) (Node l a v ha rt)"
    and one: "(l = Leaf) \<noteq> (rt = Leaf)"
    and ch: "ch = (if rt = Leaf then l else rt)"
    and c: "ctx (heap s) (Some a) fs (root s)"
    and d: "distinct (addrs (Node l a v ha rt) @ faddrs fs)"
  shows "\<exists>s'. bst_remove_one_child_node s a = (Some a, s') \<and> repr (heap s') (ptop fs) ch \<and>
    ctx (heap s') (raddr ch) fs (root s') \<and>
    tree_size s' = tree_size s - 1 \<and> nxt s' = nxt s \<and> heap s' a = heap s a"
proof -
  from one ch obtain cl g x gh cr where cn: "ch = Node cl g x gh cr" by (cases l; cases rt) auto
  have dd: "distinct (a # addrs ch @ faddrs fs)"
    using d one ch by (cases "rt = Leaf") auto
  from dd cn have ag: "a \<noteq> g" and dch: "distinct (addrs ch)" by auto
  from dd have chf: "set (addrs ch) \<inter> set (faddrs fs) = {}" by auto
  from r ch one have rc: "repr (heap s) (Some a) ch" by auto
  from r one ch cn have sel: "(if right (heap s a) = None then left (heap s a) else right (heap s a)) = Some g"
    and ne: "(left (heap s a) = None) \<noteq> (right (heap s a) = None)"
    by (cases l; cases rt; simp)+
  from r have pa: "parent (heap s a) = ptop fs" by simp
  from rc cn have hg: "heap s g = \<lparr>val = x, parent = Some a, left = raddr cl, right = raddr cr, height = gh\<rparr>"
    and rcl: "repr (heap s) (Some g) cl" and rcr: "repr (heap s) (Some g) cr" by simp_all
  from dch cn have gcl: "g \<notin> set (addrs cl)" "g \<notin> set (addrs cr)" by simp_all
  show ?thesis
  proof (cases fs rule: faddrs.cases)
    case 1
    have e: "bst_remove_one_child_node s a =
      (Some a, s\<lparr>root := Some g, heap := set_parent (heap s) g None, tree_size := tree_size s - 1\<rparr>)"
      using ne pa 1 by (simp add: bst_remove_one_child_node_def sel)
    show ?thesis using 1 cn hg rcl rcr gcl ag
      by (simp add: e set_parent_def repr_frame)
  next
    case (2 dd p pv sib fs')
    from d 2 have ap: "a \<noteq> p" and nsib: "a \<notin> set (addrs sib)" "p \<notin> set (addrs sib)"
      and nfs: "p \<notin> set (faddrs fs')" by auto
    from chf 2 cn have gp: "g \<noteq> p" and gsib: "g \<notin> set (addrs sib)" and gfs: "g \<notin> set (faddrs fs')"
      and pcl: "p \<notin> set (addrs cl)" "p \<notin> set (addrs cr)" by auto
    show ?thesis
    proof (cases dd)
      case L
      with c 2 have "left (heap s p) = Some a" by simp
      then have e: "bst_remove_one_child_node s a =
        (Some a, s\<lparr>heap := set_parent (set_left (heap s) p (Some g)) g (Some p),
            tree_size := tree_size s - 1\<rparr>)"
        using ne pa 2 ap by (simp add: bst_remove_one_child_node_def sel Let_def set_left_def)
      show ?thesis using c 2 L ap nsib nfs cn hg rcl rcr gcl ag gp gsib gfs pcl
        by (simp add: e set_left_def set_parent_def repr_frame ctx_frame)
    next
      case R
      with c 2 have "left (heap s p) = raddr sib" by simp
      with raddr_notin[OF nsib(1)] have "left (heap s p) \<noteq> Some a" by simp
      then have e: "bst_remove_one_child_node s a =
        (Some a, s\<lparr>heap := set_parent (set_right (heap s) p (Some g)) g (Some p),
            tree_size := tree_size s - 1\<rparr>)"
        using ne pa 2 ap by (simp add: bst_remove_one_child_node_def sel Let_def set_right_def)
      show ?thesis using c 2 R ap nsib nfs cn hg rcl rcr gcl ag gp gsib gfs pcl
        by (simp add: e set_right_def set_parent_def repr_frame ctx_frame)
    qed
  qed
qed

lemma remove_leaf_not: 
  "left (heap s a) \<noteq> None \<or> right (heap s a) \<noteq> None \<Longrightarrow> bst_remove_leaf s a = (None, s)"
  by (auto simp: bst_remove_leaf_def)

lemma remove_one_child_not:
  "(left (heap s a) = None) = (right (heap s a) = None) \<Longrightarrow>
   bst_remove_one_child_node s a = (None, s)"
  by (simp add: bst_remove_one_child_node_def)

lemma leftmost_repr:
  "repr h (ptop fs) t \<Longrightarrow> ctx h (raddr t) fs rt \<Longrightarrow> leftmost t fs = (t', fs') \<Longrightarrow>
   repr h (ptop fs') t' \<and> ctx h (raddr t') fs' rt"
  by (induction t fs rule: leftmost.induct) auto

lemma leftmost_keys:
  "leftmost t fs = (t', fs') \<Longrightarrow> pre fs' @ keys t' @ post fs' = pre fs @ keys t @ post fs"
  by (induction t fs rule: leftmost.induct) auto

lemma leftmost_pre: "leftmost t fs = (t', fs') \<Longrightarrow> pre fs' = pre fs"
  by (induction t fs rule: leftmost.induct) auto

lemma leftmost_mset:
  "leftmost t fs = (t', fs') \<Longrightarrow> mset (addrs t' @ faddrs fs') = mset (addrs t @ faddrs fs)"
  by (induction t fs rule: leftmost.induct) auto

lemma leftmost_addrs:
  assumes "leftmost t fs = (t', fs')"
  shows "set (addrs t' @ faddrs fs') = set (addrs t @ faddrs fs)"
    "length (addrs t' @ faddrs fs') = length (addrs t @ faddrs fs)"
    "distinct (addrs t' @ faddrs fs') = distinct (addrs t @ faddrs fs)"
  using leftmost_mset[OF assms]
  by (rule mset_eq_setD, rule mset_eq_length, rule mset_eq_imp_distinct_iff)

lemma leftmost_avl:
  "leftmost t fs = (t', fs') \<Longrightarrow> avl t \<Longrightarrow> ctx_ok fs (sh t) \<Longrightarrow> avl t' \<and> ctx_ok fs' (sh t')"
proof (induction t fs rule: leftmost.induct)
  case (3 ll b w hb lr a v ht r fs)
  from "3.prems"(2) have al: "avl (Node ll b w hb lr)" and ar: "avl r"
    and ht: "ht = 1 + max (sh (Node ll b w hb lr)) (sh r)"
    and bb: "\<bar>sh r - sh (Node ll b w hb lr)\<bar> \<le> 1" by auto
  have "ctx_ok (Frame L a v r # fs) (sh (Node ll b w hb lr))"
    using ar bb "3.prems"(3) ht by simp
  from "3.IH"[OF _ al this] "3.prems"(1) show ?case by simp
qed auto

lemma leftmost_shape:
  "leftmost t fs = (t', fs') \<Longrightarrow> t \<noteq> Leaf \<Longrightarrow> \<exists>a v ht r. t' = Node Leaf a v ht r"
  by (induction t fs rule: leftmost.induct) auto

lemma leftmost_successor:
  "repr h par t \<Longrightarrow> raddr t = Some x \<Longrightarrow> leftmost t fs = (t', fs') \<Longrightarrow>
   successor_loop h x = raddr t'"
proof (induction t fs arbitrary: par x rule: leftmost.induct)
  case (1 fs)
  then show ?case by simp
next
  case (2 a v ht r fs)
  then show ?case by (subst successor_loop_unfold) auto
next
  case (3 ll b w hb lr a v ht r fs)
  from "3.prems" have x: "x = a" and la: "left (h a) = Some b"
    and rl: "repr h (Some a) (Node ll b w hb lr)" by auto
  from "3.IH"[OF rl _ ] "3.prems"(3) have "successor_loop h b = raddr t'" by simp
  then show ?case unfolding x by (subst successor_loop_unfold) (simp add: la)
qed

lemma sorted_remove_mid:
  "sorted_wrt (<) (A @ [k] @ B) \<Longrightarrow>
   sorted_wrt (<) (A @ B) \<and> set (A @ B) = set (A @ [k] @ B) - {k}" for k :: int
  by (auto simp: sorted_wrt_append)

lemma leftmost_fst: "fst (leftmost t fs) = fst (leftmost t fs2)"
  by (induction t fs arbitrary: fs2 rule: leftmost.induct) auto

lemma splice_zip:
  assumes r: "repr (heap s) (ptop fs) (Node l a v ha rt)"
    and c: "ctx (heap s) (Some a) fs (root s)"
    and d: "distinct (addrs (Node l a v ha rt) @ faddrs fs)"
    and leafy: "l = Leaf \<or> rt = Leaf"
    and ch: "ch = (if rt = Leaf then l else rt)"
  shows "\<exists>s2. (if l = Leaf \<and> rt = Leaf
           then bst_remove_leaf s a = (Some a, s2) \<and> bst_remove_one_child_node s a = (None, s)
           else bst_remove_leaf s a = (None, s) \<and> bst_remove_one_child_node s a = (Some a, s2)) \<and>
     repr (heap s2) (ptop fs) ch \<and> ctx (heap s2) (raddr ch) fs (root s2) \<and>
     tree_size s2 = tree_size s - 1 \<and> nxt s2 = nxt s \<and> parent (heap s2 a) = ptop fs"
proof (cases "l = Leaf \<and> rt = Leaf")
  case True
  from r True have lr: "left (heap s a) = None" "right (heap s a) = None"
    and pa: "parent (heap s a) = ptop fs" by simp_all
  from d have d': "distinct (a # faddrs fs)" by simp
  from remove_leaf_zip[OF _ c d', of v ha] r True
  obtain s' where s': "bst_remove_leaf s a = (Some a, s')" "ctx (heap s') None fs (root s')"
    "tree_size s' = tree_size s - 1" "nxt s' = nxt s" "heap s' a = heap s a" by auto
  have "bst_remove_one_child_node s a = (None, s)"
    by (rule remove_one_child_not) (simp add: lr)
  with s' True ch pa show ?thesis by auto
next
  case False
  with leafy have one: "(l = Leaf) \<noteq> (rt = Leaf)" by auto
  from remove_one_child_zip[OF r one ch c d]
  obtain s' where s': "bst_remove_one_child_node s a = (Some a, s')" "repr (heap s') (ptop fs) ch"
    "ctx (heap s') (raddr ch) fs (root s')" "tree_size s' = tree_size s - 1" "nxt s' = nxt s"
    "heap s' a = heap s a" by auto
  from r one have "left (heap s a) \<noteq> None \<or> right (heap s a) \<noteq> None"
    by (cases l; cases rt) auto
  then have "bst_remove_leaf s a = (None, s)" by (rule remove_leaf_not)
  moreover from r have "parent (heap s a) = ptop fs" by simp
  ultimately show ?thesis using s' False by auto
qed

lemma splice_pure:
  assumes "avl (Node l a v ha rt)" "l = Leaf \<or> rt = Leaf" "ch = (if rt = Leaf then l else rt)"
  shows "avl ch \<and> \<bar>sh ch - ha\<bar> \<le> 1 \<and> keys ch = keys l @ keys rt \<and>
    addrs ch = addrs l @ addrs rt"
  using assms avl_sh_ge[of l] avl_sh_ge[of rt] by auto

lemma finish_remove:
  assumes "parent (heap s2 d) = ptop fs" "balance_loop s2 (ptop fs) = Some (Inr s')"
  shows "(case parent (heap s2 d) of
            None \<Rightarrow> Some (Inr (True, s2))
          | Some p \<Rightarrow>
             (case balance s2 p of
                None \<Rightarrow> None
              | Some (Inl e) \<Rightarrow> Some (Inl e)
              | Some (Inr s3) \<Rightarrow> Some (Inr (True, s3)))) = Some (Inr (True, s'))"
proof (cases "ptop fs")
  case None
  with assms show ?thesis by (simp add: balance_loop_None)
next
  case (Some p)
  with assms show ?thesis by (simp add: balance_def)
qed

lemma two_child_zip:
  assumes r: "repr (heap s) (ptop fs) (Node l a k ha rt)"
    and c: "ctx (heap s) (Some a) fs (root s)"
    and d: "distinct (addrs (Node l a k ha rt) @ faddrs fs)"
    and av: "avl (Node l a k ha rt)" and ok: "ctx_ok fs ha"
    and two: "l \<noteq> Leaf" "rt \<noteq> Leaf"
  shows "\<exists>su sv shh sr fs2 s2.
     leftmost rt (Frame R a sv l # fs) = (Node Leaf su sv shh sr, fs2) \<and>
     bst_remove_two_child_node s a = Some (Some su, s2) \<and>
     parent (heap s2 su) = ptop fs2 \<and>
     repr (heap s2) (ptop fs2) sr \<and> ctx (heap s2) (raddr sr) fs2 (root s2) \<and>
     distinct (addrs (Node Leaf su sv shh sr) @ faddrs fs2) \<and>
     avl (Node Leaf su sv shh sr) \<and> ctx_ok fs2 shh \<and>
     tree_size s2 = tree_size s - 1 \<and> nxt s2 = nxt s"
proof -
  from two obtain ll la lv lh lr where l: "l = Node ll la lv lh lr" by (cases l) auto
  from two obtain rl rx rv rh rr where rt: "rt = Node rl rx rv rh rr" by (cases rt) auto
  obtain ts fs0 where lm0: "leftmost rt (Frame R a k l # fs) = (ts, fs0)"
    by (cases "leftmost rt (Frame R a k l # fs)") auto
  from leftmost_shape[OF lm0 two(2)] obtain su sv shh sr where ts: "ts = Node Leaf su sv shh sr"
    by auto
  from r have rr0: "repr (heap s) (Some a) rt" and rl0: "repr (heap s) (Some a) l"
    and ha: "heap s a = \<lparr>val = k, parent = ptop fs, left = raddr l, right = raddr rt, height = ha\<rparr>"
    by simp_all
  have c0: "ctx (heap s) (raddr rt) (Frame R a k l # fs) (root s)" using r c by simp
  from leftmost_repr[OF _ c0 lm0] rr0 ts
  have vsu: "val (heap s su) = sv" by simp
  from leftmost_successor[OF rr0 _ lm0] rt ts have sl: "successor_loop (heap s) rx = Some su" by simp
  define s1 where "s1 = s\<lparr>heap := set_val (heap s) a sv\<rparr>"
  obtain ts' fs2 where lm: "leftmost rt (Frame R a sv l # fs) = (ts', fs2)"
    by (cases "leftmost rt (Frame R a sv l # fs)") auto
  from leftmost_fst[of rt "Frame R a sv l # fs" "Frame R a k l # fs"] lm lm0 ts
  have ts': "ts' = Node Leaf su sv shh sr" by simp
  from d have da: "a \<notin> set (addrs l)" "a \<notin> set (addrs rt)" "a \<notin> set (faddrs fs)" by simp_all
  have h1o: "heap s1 x = heap s x" if "x \<noteq> a" for x using that by (simp add: s1_def set_val_def)
  have xl: "x \<noteq> a" if "x \<in> set (addrs l)" for x using that da by auto
  have xr: "x \<noteq> a" if "x \<in> set (addrs rt)" for x using that da by auto
  have xf: "x \<noteq> a" if "x \<in> set (faddrs fs)" for x using that da by auto
  have "repr (heap s1) (Some a) l = repr (heap s) (Some a) l"
    by (intro repr_cong h1o xl)
  with rl0 have rl1: "repr (heap s1) (Some a) l" by simp
  have "repr (heap s1) (Some a) rt = repr (heap s) (Some a) rt"
    by (intro repr_cong h1o xr)
  with rr0 have rr1: "repr (heap s1) (Some a) rt" by simp
  have "ctx (heap s1) (Some a) fs (root s1) = ctx (heap s) (Some a) fs (root s)"
    unfolding s1_def by (simp, intro ctx_cong) (simp add: set_val_def xf)
  with c have cf1: "ctx (heap s1) (Some a) fs (root s1)" by simp
  have ha1: "heap s1 a = \<lparr>val = sv, parent = ptop fs, left = raddr l, right = raddr rt, height = ha\<rparr>"
    by (simp add: s1_def set_val_def ha)
  have c1: "ctx (heap s1) (raddr rt) (Frame R a sv l # fs) (root s1)"
    using ha1 rl1 cf1 by simp
  have r1: "repr (heap s1) (ptop (Frame R a sv l # fs)) rt" using rr1 by simp
  from leftmost_repr[OF r1 c1 lm] ts'
  have r2: "repr (heap s1) (ptop fs2) (Node Leaf su sv shh sr)"
    and c2: "ctx (heap s1) (Some su) fs2 (root s1)" by simp_all
  have "distinct (addrs rt @ faddrs (Frame R a sv l # fs))" using d by auto
  with leftmost_addrs(3)[OF lm] ts'
  have d2: "distinct (addrs (Node Leaf su sv shh sr) @ faddrs fs2)" by simp
  from av have al: "avl l" and ar: "avl rt" and hae: "ha = 1 + max (sh l) (sh rt)"
    and bb: "\<bar>sh rt - sh l\<bar> \<le> 1" by simp_all
  have "ctx_ok (Frame R a sv l # fs) (sh rt)"
    using al bb ok hae by (simp add: max.commute)
  from leftmost_avl[OF lm ar this]
  have "avl (Node Leaf su sv shh sr) \<and> ctx_ok fs2 (sh (Node Leaf su sv shh sr))"
    unfolding ts' .
  then have a2: "avl (Node Leaf su sv shh sr)" and ok2: "ctx_ok fs2 shh"
    by (simp_all only: sh.simps)
  from splice_zip[OF r2 c2 d2, of sr]
  obtain s2 where s2: "(if sr = Leaf
           then bst_remove_leaf s1 su = (Some su, s2) \<and> bst_remove_one_child_node s1 su = (None, s1)
           else bst_remove_leaf s1 su = (None, s1) \<and> bst_remove_one_child_node s1 su = (Some su, s2))"
     "repr (heap s2) (ptop fs2) sr" "ctx (heap s2) (raddr sr) fs2 (root s2)"
     "tree_size s2 = tree_size s1 - 1" "nxt s2 = nxt s1" "parent (heap s2 su) = ptop fs2"
    by auto
  have e: "bst_remove_two_child_node s a = Some (Some su, s2)"
    using s2(1) ha l rt
    by (simp add: bst_remove_two_child_node_def sl vsu s1_def[symmetric] split: if_splits)
  from lm ts' have lm': "leftmost rt (Frame R a sv l # fs) = (Node Leaf su sv shh sr, fs2)" by simp
  have f: "tree_size s2 = tree_size s - 1" "nxt s2 = nxt s" using s2(4,5) by (simp_all add: s1_def)
  show ?thesis using lm' e s2(6,2,3) d2 a2 ok2 f by blast
qed

lemma remove_finalize:
  assumes r: "repr (heap s2) (ptop fs2) c" and cx: "ctx (heap s2) (raddr c) fs2 (root s2)"
    and d: "distinct (addrs c @ faddrs fs2)" and a: "avl c" and ok: "ctx_ok fs2 H"
    and hh: "\<bar>sh c - H\<bar> \<le> 1"
    and kT: "keys T = A @ [k] @ B" and kc: "pre fs2 @ keys c @ post fs2 = A @ B"
    and sT: "sorted_wrt (<) (keys T)"
    and sub: "set (addrs c @ faddrs fs2) \<subseteq> set (addrs T)"
    and len: "int (length (addrs c @ faddrs fs2)) = tree_size s2"
    and lt: "\<forall>a \<in> set (addrs T). a < nxt s2"
  shows "\<exists>s' T'. balance_loop s2 (ptop fs2) = Some (Inr s') \<and> inv_t s' T' \<and>
    set (keys T') = set (keys T) - {k} \<and> tree_size s' = tree_size s2 \<and> nxt s' = nxt s2"
proof -
  from balance_loop_zip[OF r cx d a ok hh]
  obtain s' T' where s': "balance_loop s2 (ptop fs2) = Some (Inr s')" "root s' = raddr T'"
    "repr (heap s') None T'" "avl T'" "keys T' = pre fs2 @ keys c @ post fs2"
    "set (addrs T') = set (addrs c) \<union> set (faddrs fs2)" "distinct (addrs T')"
    "length (addrs T') = length (addrs c) + length (faddrs fs2)"
    "tree_size s' = tree_size s2" "nxt s' = nxt s2" by blast
  from sorted_remove_mid[of A k B] sT kT
  have srt: "sorted_wrt (<) (A @ B)" and st: "set (A @ B) = set (keys T) - {k}" by simp_all
  have kT': "keys T' = A @ B" using s'(5) kc by simp
  have "inv_t s' T'"
    unfolding inv_t_def kT'
    using s'(2,3,4,6,7,8,9,10) srt sub len lt by auto
  with s'(1,9,10) st kT' show ?thesis by auto
qed

lemma remove_correct:
  assumes inv: "inv_t s T"
  shows "\<exists>s' T'. AVLTree_remove s (PInt k) = Some (Inr (k \<in> set (keys T), s')) \<and> inv_t s' T' \<and>
     set (keys T') = set (keys T) - {k} \<and>
     (k \<notin> set (keys T) \<longrightarrow> T' = T \<and> root s' = root s \<and> tree_size s' = tree_size s \<and>
        (\<forall>a < nxt s. heap s' a = heap s a)) \<and>
     (k \<in> set (keys T) \<longrightarrow> tree_size s' = tree_size s - 1)"
proof -
  define n where "n = nxt s"
  define s1 where "s1 = s\<lparr>heap := (heap s)(n := Node_new k), nxt := n + 1\<rparr>"
  from inv have rt: "root s = raddr T" and rp: "repr (heap s) None T" and dT: "distinct (addrs T)"
    and aT: "avl T" and sT: "sorted_wrt (<) (keys T)" and sz: "tree_size s = int (length (addrs T))"
    and lt: "\<forall>a \<in> set (addrs T). a < nxt s" by (simp_all add: inv_t_def)
  have cr: "create_node_from_value s (PInt k) = Inr (n, s1)"
    by (simp add: create_node_from_value_def s1_def n_def)
  from lt have nT: "n \<notin> set (addrs T)" by (auto simp: n_def)
  have r1: "repr (heap s1) None T" using rp nT by (simp add: s1_def repr_frame)
  have rt1: "root s1 = raddr T" by (simp add: s1_def rt)
  have vn: "val (heap s1 n) = k" by (simp add: s1_def Node_new_def)
  have sz1: "tree_size s1 = int (length (addrs T))" by (simp add: s1_def sz)
  have lt1: "\<forall>a \<in> set (addrs T). a < nxt s1" using lt by (auto simp: s1_def n_def)
  obtain t' fs' where de: "descend k T [] = (t', fs')" by (cases "descend k T []") auto
  note sn = search_node_zip[OF r1 rt1 vn de]
  from descend_root_found[OF de sT]
  have nf: "t' = Leaf \<Longrightarrow> k \<notin> set (keys T)"
    and fd: "t' \<noteq> Leaf \<Longrightarrow> k \<in> set (keys T) \<and> (\<exists>l a ht r. t' = Node l a k ht r)" by auto
  show ?thesis
  proof (cases "t' = Leaf")
    case True
    then have "bst_remove s1 n = Some (Inr (None, s1))"
      by (simp add: bst_remove_def sn)
    then have "AVLTree_remove s (PInt k) = Some (Inr (False, s1))"
      by (simp add: AVLTree_remove_def cr)
    moreover have "inv_t s1 T"
      using r1 rt1 dT aT sT sz lt by (auto simp: inv_t_def s1_def n_def)
    moreover have "\<forall>a < nxt s. heap s1 a = heap s a" by (simp add: s1_def n_def)
    moreover have "root s1 = root s" "tree_size s1 = tree_size s" by (simp_all add: s1_def)
    ultimately show ?thesis using nf[OF True] by auto
  next
    case False
    from fd[OF False] obtain l a ha r where kin: "k \<in> set (keys T)" and t': "t' = Node l a k ha r"
      by auto
    have "repr (heap s1) (ptop []) T" "ctx (heap s1) (raddr T) [] (root s1)"
      using r1 rt1 by simp_all
    from descend_repr[OF this de] t'
    have rf: "repr (heap s1) (ptop fs') (Node l a k ha r)"
      and cf: "ctx (heap s1) (Some a) fs' (root s1)" by simp_all
    from descend_addrs[OF de] dT t'
    have df: "distinct (addrs (Node l a k ha r) @ faddrs fs')"
      and sf: "set (addrs (Node l a k ha r) @ faddrs fs') = set (addrs T)"
      and lf: "length (addrs (Node l a k ha r) @ faddrs fs') = length (addrs T)" by simp_all
    have cok: "ctx_ok [] (sh T)" by simp
    note descend_avl[OF de aT cok, unfolded t']
    then have af: "avl (Node l a k ha r)" and okf: "ctx_ok fs' ha"
      by (simp_all only: sh.simps)
    from descend_keys[OF de] t'
    have kT: "keys T = (pre fs' @ keys l) @ [k] @ (keys r @ post fs')" by simp
    have sna: "search_node s1 n = Some \<lparr>searched_node = Some a, insert_place = None\<rparr>"
      using sn t' by simp
    have "\<exists>d s2 fs2 s' T'. bst_remove s1 n = Some (Inr (Some d, s2)) \<and>
        parent (heap s2 d) = ptop fs2 \<and>
        balance_loop s2 (ptop fs2) = Some (Inr s') \<and> inv_t s' T' \<and>
        set (keys T') = set (keys T) - {k} \<and> tree_size s' = tree_size s1 - 1"
    proof (cases "l = Leaf \<or> r = Leaf")
      case True
      define ch where "ch = (if r = Leaf then l else r)"
      from splice_zip[OF rf cf df True ch_def]
      obtain s2 where s2: "(if l = Leaf \<and> r = Leaf
           then bst_remove_leaf s1 a = (Some a, s2) \<and> bst_remove_one_child_node s1 a = (None, s1)
           else bst_remove_leaf s1 a = (None, s1) \<and> bst_remove_one_child_node s1 a = (Some a, s2))"
        "repr (heap s2) (ptop fs') ch" "ctx (heap s2) (raddr ch) fs' (root s2)"
        "tree_size s2 = tree_size s1 - 1" "nxt s2 = nxt s1" "parent (heap s2 a) = ptop fs'"
        by blast
      have br: "bst_remove s1 n = Some (Inr (Some a, s2))"
        using s2(1) by (simp add: bst_remove_def sna split: if_splits)
      from splice_pure[OF af True ch_def]
      have ac: "avl ch" and hc: "\<bar>sh ch - ha\<bar> \<le> 1" and kc: "keys ch = keys l @ keys r"
        and adc: "addrs ch = addrs l @ addrs r" by simp_all
      have d2: "distinct (addrs ch @ faddrs fs')" using df by (auto simp: adc)
      have kc2: "pre fs' @ keys ch @ post fs' = (pre fs' @ keys l) @ (keys r @ post fs')"
        by (simp add: kc)
      have sub: "set (addrs ch @ faddrs fs') \<subseteq> set (addrs T)"
        unfolding sf[symmetric] by (auto simp: adc)
      have len: "int (length (addrs ch @ faddrs fs')) = tree_size s2"
        using lf by (simp add: s2(4) sz1 adc)
      have lt2: "\<forall>a \<in> set (addrs T). a < nxt s2" using lt1 by (simp add: s2(5))
      from remove_finalize[OF s2(2,3) d2 ac okf hc kT kc2 sT sub len lt2]
      obtain s' T' where "balance_loop s2 (ptop fs') = Some (Inr s')" "inv_t s' T'"
        "set (keys T') = set (keys T) - {k}" "tree_size s' = tree_size s2" by blast
      with br s2(6,4) show ?thesis by auto
    next
      case False
      then have two: "l \<noteq> Leaf" "r \<noteq> Leaf" by simp_all
      from two_child_zip[OF rf cf df af okf two]
      obtain su sv shh sr fs2 s2 where
        lm: "leftmost r (Frame R a sv l # fs') = (Node Leaf su sv shh sr, fs2)"
        and e: "bst_remove_two_child_node s1 a = Some (Some su, s2)"
        and pa: "parent (heap s2 su) = ptop fs2"
        and r2: "repr (heap s2) (ptop fs2) sr" and c2: "ctx (heap s2) (raddr sr) fs2 (root s2)"
        and d2: "distinct (addrs (Node Leaf su sv shh sr) @ faddrs fs2)"
        and a2: "avl (Node Leaf su sv shh sr)" and ok2: "ctx_ok fs2 shh"
        and f2: "tree_size s2 = tree_size s1 - 1" "nxt s2 = nxt s1" by blast
      from rf two have lr: "left (heap s1 a) \<noteq> None" "right (heap s1 a) \<noteq> None"
        by (cases l; cases r; simp)+
      have b1: "bst_remove_leaf s1 a = (None, s1)" by (rule remove_leaf_not) (simp add: lr)
      have b2: "bst_remove_one_child_node s1 a = (None, s1)"
        by (rule remove_one_child_not) (simp add: lr)
      have br: "bst_remove s1 n = Some (Inr (Some su, s2))"
        by (simp add: bst_remove_def sna b1 b2 e)
      from splice_pure[OF a2, of sr]
      have ac: "avl sr" and hc: "\<bar>sh sr - shh\<bar> \<le> 1" by simp_all
      have d3: "distinct (addrs sr @ faddrs fs2)" using d2 by simp
      from leftmost_keys[OF lm] leftmost_pre[OF lm]
      have "(pre fs' @ keys l @ [sv]) @ (sv # keys sr @ post fs2) =
            (pre fs' @ keys l @ [sv]) @ (keys r @ post fs')" by simp
      then have B: "keys r @ post fs' = sv # keys sr @ post fs2" by (simp only: same_append_eq)
      have kc2: "pre fs2 @ keys sr @ post fs2 = (pre fs' @ keys l) @ (keys r @ post fs')"
        unfolding B using leftmost_pre[OF lm] by simp
      have "set (addrs sr @ faddrs fs2) \<subseteq> set (addrs (Node Leaf su sv shh sr) @ faddrs fs2)"
        by auto
      also have "\<dots> = set (addrs r @ faddrs (Frame R a sv l # fs'))"
        by (rule leftmost_addrs(1)[OF lm])
      also have "\<dots> = set (addrs (Node l a k ha r) @ faddrs fs')" by auto
      finally have sub: "set (addrs sr @ faddrs fs2) \<subseteq> set (addrs T)" unfolding sf .
      have "length (addrs (Node Leaf su sv shh sr) @ faddrs fs2) =
            length (addrs r @ faddrs (Frame R a sv l # fs'))"
        by (rule leftmost_addrs(2)[OF lm])
      then have len: "int (length (addrs sr @ faddrs fs2)) = tree_size s2"
        using lf by (simp add: f2 sz1)
      have lt2: "\<forall>a \<in> set (addrs T). a < nxt s2" using lt1 by (simp add: f2)
      from remove_finalize[OF r2 c2 d3 ac ok2 hc kT kc2 sT sub len lt2]
      obtain s' T' where "balance_loop s2 (ptop fs2) = Some (Inr s')" "inv_t s' T'"
        "set (keys T') = set (keys T) - {k}" "tree_size s' = tree_size s2" by blast
      with br pa f2 show ?thesis by auto
    qed
    then obtain d s2 fs2 s' T' where br: "bst_remove s1 n = Some (Inr (Some d, s2))"
      and pa: "parent (heap s2 d) = ptop fs2"
      and bl: "balance_loop s2 (ptop fs2) = Some (Inr s')" and i': "inv_t s' T'"
      and ks: "set (keys T') = set (keys T) - {k}" and ts: "tree_size s' = tree_size s1 - 1"
      by blast
    have "AVLTree_remove s (PInt k) = Some (Inr (True, s'))"
      using finish_remove[OF pa bl] by (simp add: AVLTree_remove_def cr br)
    moreover have "tree_size s' = tree_size s - 1" using ts by (simp add: s1_def)
    ultimately show ?thesis using kin i' ks by auto
  qed
qed

lemma find_correct:
  assumes inv: "inv_t s T"
  shows "\<exists>s' r. AVLTree_find s (PInt k) = Some (Inr (r, s')) \<and> inv_t s' T \<and>
    (k \<in> set (keys T) \<longrightarrow> (\<exists>a. r = Some a \<and> a \<in> set (addrs T) \<and> val (heap s' a) = k)) \<and>
    (k \<notin> set (keys T) \<longrightarrow> r = None)"
proof -
  define n where "n = nxt s"
  define s1 where "s1 = s\<lparr>heap := (heap s)(n := Node_new k), nxt := n + 1\<rparr>"
  from inv have rt: "root s = raddr T" and rp: "repr (heap s) None T" and dT: "distinct (addrs T)"
    and aT: "avl T" and sT: "sorted_wrt (<) (keys T)" and sz: "tree_size s = int (length (addrs T))"
    and lt: "\<forall>a \<in> set (addrs T). a < nxt s" by (simp_all add: inv_t_def)
  have cr: "create_node_from_value s (PInt k) = Inr (n, s1)"
    by (simp add: create_node_from_value_def s1_def n_def)
  from lt have nT: "n \<notin> set (addrs T)" by (auto simp: n_def)
  have r1: "repr (heap s1) None T" using rp nT by (simp add: s1_def repr_frame)
  have rt1: "root s1 = raddr T" by (simp add: s1_def rt)
  have vn: "val (heap s1 n) = k" by (simp add: s1_def Node_new_def)
  have i1: "inv_t s1 T"
    using r1 rt1 dT aT sT sz lt by (auto simp: inv_t_def s1_def n_def)
  obtain t' fs' where de: "descend k T [] = (t', fs')" by (cases "descend k T []") auto
  note sn = search_node_zip[OF r1 rt1 vn de]
  have fe: "AVLTree_find s (PInt k) = Some (Inr (raddr t', s1))"
    by (simp add: AVLTree_find_def cr sn is_found_def)
  from descend_root_found[OF de sT]
  have nf: "t' = Leaf \<Longrightarrow> k \<notin> set (keys T)"
    and fd: "t' \<noteq> Leaf \<Longrightarrow> k \<in> set (keys T) \<and> (\<exists>l a ht r. t' = Node l a k ht r)" by auto
  show ?thesis
  proof (cases "t' = Leaf")
    case True
    with fe i1 nf show ?thesis by auto
  next
    case False
    from fd[OF False] obtain l a ha r where kin: "k \<in> set (keys T)" and t': "t' = Node l a k ha r"
      by auto
    have "repr (heap s1) (ptop []) T" "ctx (heap s1) (raddr T) [] (root s1)"
      using r1 rt1 by simp_all
    from descend_repr[OF this de] t' have "val (heap s1 a) = k" by simp
    moreover from descend_addrs(1)[OF de] t' have "a \<in> set (addrs T)" by auto
    ultimately show ?thesis using fe i1 kin t' by auto
  qed
qed

lemma inv_empty: "inv_t empty_tree Leaf"
  by (simp add: inv_t_def empty_tree_def AVLTree_init_def)

lemma run_ops_inv:
  "inv_t s T \<Longrightarrow> \<exists>s' T'. run_ops s ops = Some (Inr s') \<and> inv_t s' T' \<and>
     set (keys T') = keys_after ops (set (keys T))"
proof (induction ops arbitrary: s T)
  case Nil
  then show ?case by auto
next
  case (Cons x xs)
  show ?case
  proof (cases x)
    case (Insert k)
    from insert_correct[OF Cons.prems, of k]
    obtain s1 T1 where 1: "AVLTree_insert s (PInt k) = Some (Inr (k \<notin> set (keys T), s1))"
      "inv_t s1 T1" "set (keys T1) = set (keys T) \<union> {k}" by blast
    from Cons.IH[OF 1(2)] 1(1,3) Insert show ?thesis by simp
  next
    case (Remove k)
    from remove_correct[OF Cons.prems, of k]
    obtain s1 T1 where 1: "AVLTree_remove s (PInt k) = Some (Inr (k \<in> set (keys T), s1))"
      "inv_t s1 T1" "set (keys T1) = set (keys T) - {k}" by blast
    from Cons.IH[OF 1(2)] 1(1,3) Remove show ?thesis by simp
  qed
qed

lemma keys_after_live:
  "k \<in> keys_after ops S \<longleftrightarrow> live k ops \<or> (k \<in> S \<and> Remove k \<notin> set ops)"
proof (induction ops arbitrary: S)
  case Nil
  then show ?case by simp
next
  case (Cons x xs)
  then show ?case by (cases x) auto
qed

lemma repr_reach: "repr h par t \<Longrightarrow> reach h (raddr t) t"
  by (induction t arbitrary: par) auto

lemma sorted_bst: "sorted_wrt (<) (keys t) \<Longrightarrow> bst t"
  by (induction t) (auto simp: sorted_wrt_append)

lemma sorted_distinct: "sorted_wrt (<) xs \<Longrightarrow> distinct xs" for xs :: "int list"
  by (induction xs) auto

lemma avl_store:
  "repr h par t \<Longrightarrow> avl t \<Longrightarrow> a \<in> set (addrs t) \<Longrightarrow>
   balance_factor h a \<in> {-1, 0, 1} \<and>
   height (h a) = 1 + max (child_height h (left (h a))) (child_height h (right (h a)))"
proof (induction t arbitrary: par)
  case Leaf
  then show ?case by simp
next
  case (Node l b v ht r)
  from Node.prems(1) have rl: "repr h (Some b) l" and rr: "repr h (Some b) r" by simp_all
  from Node.prems(2) have al: "avl l" and ar: "avl r" by simp_all
  from Node.prems(3) consider "a = b" | "a \<in> set (addrs l)" | "a \<in> set (addrs r)" by auto
  then show ?case
  proof cases
    case 1
    from balance_factor_repr[OF Node.prems(1)] Node.prems(1,2) repr_sh[OF rl] repr_sh[OF rr]
    show ?thesis unfolding 1 by auto
  next
    case 2
    from Node.IH(1)[OF rl al 2] show ?thesis .
  next
    case 3
    from Node.IH(2)[OF rr ar 3] show ?thesis .
  qed
qed

lemma parents_store:
  "repr h par t \<Longrightarrow> distinct (addrs t) \<Longrightarrow> a \<in> set (addrs t) \<Longrightarrow>
   (raddr t = Some a \<and> parent (h a) = par) \<or>
   (\<exists>p. parent (h a) = Some p \<and> p \<in> set (addrs t) \<and>
        ((left (h p) = Some a) \<noteq> (right (h p) = Some a)))"
proof (induction t arbitrary: par)
  case Leaf
  then show ?case by simp
next
  case (Node l b v ht r)
  from Node.prems(1) have rl: "repr h (Some b) l" and rr: "repr h (Some b) r"
    and hb: "left (h b) = raddr l" "right (h b) = raddr r" "parent (h b) = par" by simp_all
  from Node.prems(2) have dl: "distinct (addrs l)" and dr: "distinct (addrs r)"
    and dj: "set (addrs l) \<inter> set (addrs r) = {}" by auto
  from Node.prems(3) consider "a = b" | "a \<in> set (addrs l)" | "a \<in> set (addrs r)" by auto
  then show ?case
  proof cases
    case 1
    with hb show ?thesis by simp
  next
    case 2
    with dj have nr: "a \<notin> set (addrs r)" by auto
    from Node.IH(1)[OF rl dl 2] show ?thesis
    proof
      assume "raddr l = Some a \<and> parent (h a) = Some b"
      with hb raddr_notin[OF nr] show ?thesis by auto
    next
      assume "\<exists>p. parent (h a) = Some p \<and> p \<in> set (addrs l) \<and>
        ((left (h p) = Some a) \<noteq> (right (h p) = Some a))"
      then show ?thesis by auto
    qed
  next
    case 3
    with dj have nl: "a \<notin> set (addrs l)" by auto
    from Node.IH(2)[OF rr dr 3] show ?thesis
    proof
      assume "raddr r = Some a \<and> parent (h a) = Some b"
      with hb raddr_notin[OF nl] show ?thesis by auto
    next
      assume "\<exists>p. parent (h a) = Some p \<and> p \<in> set (addrs r) \<and>
        ((left (h p) = Some a) \<noteq> (right (h p) = Some a))"
      then show ?thesis by auto
    qed
  qed
qed

lemma inv_t_invariants:
  assumes "inv_t s T"
  shows "invariants s T"
proof -
  from assms have rt: "root s = raddr T" and rp: "repr (heap s) None T" and dT: "distinct (addrs T)"
    and aT: "avl T" and sT: "sorted_wrt (<) (keys T)" by (simp_all add: inv_t_def)
  have "reach (heap s) (root s) T" unfolding rt by (rule repr_reach[OF rp])
  moreover have "bst T" by (rule sorted_bst[OF sT])
  moreover have "balance_ok s T" unfolding balance_ok_def using avl_store[OF rp aT] by blast
  moreover have "heights_ok s T" unfolding heights_ok_def using avl_store[OF rp aT] by blast
  moreover have "parents_ok s T"
    unfolding parents_ok_def
  proof
    fix a assume a: "a \<in> set (addrs T)"
    from parents_store[OF rp dT a] rt
    show "case parent (heap s a) of None \<Rightarrow> root s = Some a
          | Some p \<Rightarrow> p \<in> set (addrs T) \<and>
              ((left (heap s p) = Some a) \<noteq> (right (heap s p) = Some a))"
      by (auto split: option.split)
  qed
  moreover have "distinct (keys T)" by (rule sorted_distinct[OF sT])
  ultimately show ?thesis by (simp add: invariants_def)
qed

lemma length_keys_addrs: "length (keys t) = length (addrs t)"
  by (induction t) auto

subsection \<open>Running the two examples\<close>

lemmas evals = search_loop_None search_loop_Some balance_loop_None balance_loop_Some
  successor_loop_unfold fun_eq_iff
  AVLTree_insert_def AVLTree_remove_def AVLTree_find_def
  create_node_from_value_def bst_insert_def search_node_def is_found_def
  balance_def balance_step_def update_height_def balance_factor_def
  rotate_left_def rotate_right_def set_left_def set_right_def set_parent_def set_height_def
  set_val_def Node_new_def Let_def AVLTree_init_def empty_tree_def
  bst_remove_def bst_remove_leaf_def bst_remove_one_child_node_def bst_remove_two_child_node_def

lemma ascending_step_1: "AVLTree_insert empty_tree (PInt 1) = Some (Inr (True, ascending_1))"
  unfolding ascending_1_def by (simp add: evals cong: let_weak_cong)

lemma ascending_step_2: "AVLTree_insert ascending_1 (PInt 2) = Some (Inr (True, ascending_2))"
  unfolding ascending_1_def ascending_2_def by (simp add: evals cong: let_weak_cong)

lemma ascending_step_3: "AVLTree_insert ascending_2 (PInt 3) = Some (Inr (True, ascending_3))"
  unfolding ascending_2_def ascending_3_def by (simp add: evals cong: let_weak_cong)

lemma ascending_step_4: "AVLTree_insert ascending_3 (PInt 4) = Some (Inr (True, ascending_4))"
  unfolding ascending_3_def ascending_4_def by (simp add: evals cong: let_weak_cong)

lemma ascending_step_5: "AVLTree_insert ascending_4 (PInt 5) = Some (Inr (True, ascending_5))"
  unfolding ascending_4_def ascending_5_def by (simp add: evals cong: let_weak_cong)

lemma ascending_step_6: "AVLTree_insert ascending_5 (PInt 6) = Some (Inr (True, ascending_6))"
  unfolding ascending_5_def ascending_6_def by (simp add: evals cong: let_weak_cong)

lemma ascending_step_7: "AVLTree_insert ascending_6 (PInt 7) = Some (Inr (True, ascending_7))"
  unfolding ascending_6_def ascending_7_def by (simp add: evals cong: let_weak_cong)

lemma seven_keys_step_1: "AVLTree_insert empty_tree (PInt 10) = Some (Inr (True, seven_keys_1))"
  unfolding seven_keys_1_def by (simp add: evals cong: let_weak_cong)

lemma seven_keys_step_2: "AVLTree_insert seven_keys_1 (PInt 5) = Some (Inr (True, seven_keys_2))"
  unfolding seven_keys_1_def seven_keys_2_def by (simp add: evals cong: let_weak_cong)

lemma seven_keys_step_3: "AVLTree_insert seven_keys_2 (PInt 15) = Some (Inr (True, seven_keys_3))"
  unfolding seven_keys_2_def seven_keys_3_def by (simp add: evals cong: let_weak_cong)

lemma seven_keys_step_4: "AVLTree_insert seven_keys_3 (PInt 3) = Some (Inr (True, seven_keys_4))"
  unfolding seven_keys_3_def seven_keys_4_def by (simp add: evals cong: let_weak_cong)

lemma seven_keys_step_5: "AVLTree_insert seven_keys_4 (PInt 7) = Some (Inr (True, seven_keys_5))"
  unfolding seven_keys_4_def seven_keys_5_def by (simp add: evals cong: let_weak_cong)

lemma seven_keys_step_6: "AVLTree_insert seven_keys_5 (PInt 12) = Some (Inr (True, seven_keys_6))"
  unfolding seven_keys_5_def seven_keys_6_def by (simp add: evals cong: let_weak_cong)

lemma seven_keys_step_7: "AVLTree_insert seven_keys_6 (PInt 18) = Some (Inr (True, seven_keys_7))"
  unfolding seven_keys_6_def seven_keys_7_def by (simp add: evals cong: let_weak_cong)

lemma seven_keys_remove:
  "AVLTree_remove seven_keys_7 (PInt 10) = Some (Inr (True, seven_keys_removed))"
  unfolding seven_keys_7_def seven_keys_removed_def by (simp add: evals cong: let_weak_cong)

lemma ascending_run:
  "run_ops empty_tree [Insert 1, Insert 2, Insert 3, Insert 4, Insert 5, Insert 6, Insert 7] =
     Some (Inr ascending_7)"
  by (simp add: ascending_step_1 ascending_step_2 ascending_step_3 ascending_step_4
      ascending_step_5 ascending_step_6 ascending_step_7)

lemma seven_keys_run:
  "run_ops empty_tree [Insert 10, Insert 5, Insert 15, Insert 3, Insert 7, Insert 12, Insert 18] =
     Some (Inr seven_keys_7)"
  by (simp add: seven_keys_step_1 seven_keys_step_2 seven_keys_step_3 seven_keys_step_4
      seven_keys_step_5 seven_keys_step_6 seven_keys_step_7)

section \<open>Arguments of the wrong type\<close>

text \<open>
  C9: called with an argument that is neither an \<open>int\<close> nor a \<open>Node\<close>, each of \<open>find\<close>,
  \<open>insert\<close> and \<open>remove\<close> raises \<open>TypeError\<close>, and the tree object and the store are at
  that moment exactly what they were before the call.
\<close>

theorem wrong_type_raises_unchanged:
  "AVLTree_find s POther = Some (Inl (TypeError, s)) \<and>
   AVLTree_insert s POther = Some (Inl (TypeError, s)) \<and>
   AVLTree_remove s POther = Some (Inl (TypeError, s))"
  by (simp add: AVLTree_find_def AVLTree_insert_def AVLTree_remove_def
      create_node_from_value_def)

end
